theory Spec2Isabelle
  imports Complex_Main
begin

section \<open>Linear regression through a Cholesky decomposition of the normal equations\<close>

text \<open>
  The notebook \<^verbatim>\<open>02_lin_reg_decomposition.ipynb\<close> builds a TensorFlow graph

  \<^verbatim>\<open>
  tA_A = tf.matmul(tf.transpose(A_tensor), A_tensor)
  L = tf.cholesky(tA_A)
  tA_y = tf.matmul(tf.transpose(A_tensor), y)
  sol1 = tf.matrix_solve(L, tA_y)
  sol2 = tf.matrix_solve(tf.transpose(L), sol1)
  solution_eval = sess.run(sol2)
  \<close>

  and reads the slope and the intercept off \<^verbatim>\<open>solution_eval\<close>.

  A matrix (\<^verbatim>\<open>np.matrix\<close>, a rank-2 tensor) is the list of its rows; a vector is a
  matrix of one column, as in the notebook (\<^verbatim>\<open>y\<close> is 100 x 1, the solution 2 x 1).
  Numbers are the reals: the embedding is the exact-arithmetic reading of the float64
  program, rounding is not part of it.

  The notebook has no numerical code of its own: every step is a call into TensorFlow.
  Each operation it calls is embedded by what the library computes: \<^verbatim>\<open>tf.transpose\<close> and
  \<^verbatim>\<open>tf.matmul\<close> by their definitions, \<^verbatim>\<open>tf.cholesky\<close> by the Cholesky factorisation that
  stops at a pivot that is not positive, \<^verbatim>\<open>tf.matrix_solve\<close> by the LU solver with partial
  pivoting that stops at a pivot that is zero.
\<close>

subsection \<open>Tensors, shapes and errors\<close>

type_synonym matrix = "real list list"
type_synonym shape = "nat \<times> nat"

text \<open>
  The exceptions of the library calls that the notebook makes:
  \<^item> \<open>ValueError\<close>: raised while the graph is built, by \<^verbatim>\<open>tf.constant\<close> on rows of
    different lengths and by the shape rule of an operation (\<^verbatim>\<open>tf.matmul\<close> on inner
    dimensions that differ, \<^verbatim>\<open>tf.cholesky\<close> and \<^verbatim>\<open>tf.matrix_solve\<close> on a matrix that
    is not square or a right-hand side of another height);
  \<^item> \<open>CholeskyNotSuccessful\<close>: the \<^verbatim>\<open>InvalidArgumentError\<close> of \<^verbatim>\<open>tf.cholesky\<close>, raised
    by \<^verbatim>\<open>sess.run\<close> when a pivot of the factorisation is not positive;
  \<^item> \<open>NotInvertible\<close>: the \<^verbatim>\<open>InvalidArgumentError\<close> of \<^verbatim>\<open>tf.matrix_solve\<close>, raised by
    \<^verbatim>\<open>sess.run\<close> when a pivot of the LU factorisation is exactly zero.

  The notebook defines no exception class. The specification's names for the three
  failures are \<^verbatim>\<open>DimensionMismatchError\<close>, \<^verbatim>\<open>NotPositiveDefiniteError\<close> and
  \<^verbatim>\<open>SingularSystemError\<close>, in this order.
\<close>

datatype error = ValueError | CholeskyNotSuccessful | NotInvertible

definition ncols :: "matrix \<Rightarrow> nat" where
  "ncols M = (case M of [] \<Rightarrow> 0 | r # _ \<Rightarrow> length r)"

definition shape_of :: "matrix \<Rightarrow> shape" where
  "shape_of M = (length M, ncols M)"

definition rectangular :: "matrix \<Rightarrow> bool" where
  "rectangular M = list_all (\<lambda>r. length r = ncols M) M"

text \<open>
  \<^verbatim>\<open>tf.constant\<close>, and the conversion that \<^verbatim>\<open>tf.matmul\<close> applies to its operand \<^verbatim>\<open>y\<close>: a
  dense tensor has rows of one length.
\<close>

definition tf_constant :: "matrix \<Rightarrow> error + matrix" where
  "tf_constant M = (if rectangular M then Inr M else Inl ValueError)"

subsection \<open>Shape rules, checked when the graph is built\<close>

fun transpose_shape :: "shape \<Rightarrow> shape" where
  "transpose_shape (m, n) = (n, m)"

fun matmul_shape :: "shape \<Rightarrow> shape \<Rightarrow> error + shape" where
  "matmul_shape (m, n) (p, q) = (if n = p then Inr (m, q) else Inl ValueError)"

fun cholesky_shape :: "shape \<Rightarrow> error + shape" where
  "cholesky_shape (m, n) = (if m = n then Inr (m, n) else Inl ValueError)"

fun matrix_solve_shape :: "shape \<Rightarrow> shape \<Rightarrow> error + shape" where
  "matrix_solve_shape (m, n) (p, q) =
     (if m = n \<and> n = p then Inr (p, q) else Inl ValueError)"

subsection \<open>Kernels, run by the session\<close>

fun dot :: "real list \<Rightarrow> real list \<Rightarrow> real" where
  "dot (x # xs) (y # ys) = x * y + dot xs ys"
| "dot _ _ = 0"

definition col :: "nat \<Rightarrow> matrix \<Rightarrow> real list" where
  "col j M = map (\<lambda>r. r ! j) M"

definition transpose_m :: "matrix \<Rightarrow> matrix" where
  "transpose_m M = map (\<lambda>j. col j M) [0..<ncols M]"

definition matmul :: "matrix \<Rightarrow> matrix \<Rightarrow> matrix" where
  "matmul A B = map (\<lambda>r. map (\<lambda>j. dot r (col j B)) [0..<ncols B]) A"

definition smul :: "real \<Rightarrow> real list \<Rightarrow> real list" where
  "smul f v = map (\<lambda>x. f * x) v"

definition vsub :: "real list \<Rightarrow> real list \<Rightarrow> real list" where
  "vsub u v = map2 (\<lambda>x y. x - y) u v"

text \<open>
  \<^verbatim>\<open>tf.cholesky\<close>: the lower-triangular factor, column by column. The pivot is the
  leading entry of what remains; a pivot that is not positive stops the factorisation
  with an error. Below the pivot the column is divided by its square root, and the
  trailing block is updated by the outer product of that column. Only the lower triangle
  of the input decides the result. The shape rule admits square matrices only, so every
  row read here has a leading entry.
\<close>

definition chol_column :: "real \<Rightarrow> matrix \<Rightarrow> real list" where
  "chol_column l rs = map (\<lambda>row. hd row / l) rs"

definition chol_update :: "real list \<Rightarrow> matrix \<Rightarrow> matrix" where
  "chol_update v rs = map2 (\<lambda>vi row. vsub (tl row) (smul vi v)) v rs"

function cholesky :: "matrix \<Rightarrow> error + matrix" where
  "cholesky [] = Inr []"
| "cholesky (r # rs) =
     (if hd r \<le> 0 then Inl CholeskyNotSuccessful
      else let l = sqrt (hd r); v = chol_column l rs
           in case cholesky (chol_update v rs) of
                Inl e \<Rightarrow> Inl e
              | Inr L' \<Rightarrow> Inr ((l # replicate (length rs) 0) # map2 (#) v L'))"
  by pat_completeness auto
termination
  by (relation "measure length") (auto simp: chol_update_def chol_column_def)

declare cholesky.simps(2) [simp del]

text \<open>
  \<^verbatim>\<open>tf.matrix_solve\<close>: LU factorisation with partial pivoting, on the rows of the
  matrix paired with the rows of the right-hand side. The pivot row is the first one whose
  leading entry has the largest absolute value; it is swapped to the top, the leading
  column is eliminated from the other rows, the smaller system is solved, and the first
  row of the solution follows by substitution. A pivot that is exactly zero is the error
  \<open>NotInvertible\<close>; there is no other test on the size of a pivot.
\<close>

fun argmax_abs :: "real list \<Rightarrow> nat" where
  "argmax_abs [] = 0"
| "argmax_abs [x] = 0"
| "argmax_abs (x # xs) =
     (let i = argmax_abs xs in if \<bar>x\<bar> < \<bar>xs ! i\<bar> then Suc i else 0)"

definition elim_row ::
  "real \<Rightarrow> real list \<Rightarrow> real list \<Rightarrow> real list \<times> real list \<Rightarrow> real list \<times> real list" where
  "elim_row p pa pb ab =
     (let f = hd (fst ab) / p
      in (vsub (tl (fst ab)) (smul f (tl pa)), vsub (snd ab) (smul f pb)))"

definition subst_row :: "real \<Rightarrow> real list \<Rightarrow> real list \<Rightarrow> matrix \<Rightarrow> real list" where
  "subst_row p pa pb X =
     map (\<lambda>j. (pb ! j - dot (tl pa) (col j X)) / p) [0..<length pb]"

function lu_solve :: "(real list \<times> real list) list \<Rightarrow> matrix option" where
  "lu_solve [] = Some []"
| "lu_solve (e # es) =
     (let i = argmax_abs (map (\<lambda>ab. hd (fst ab)) (e # es));
          pa = fst ((e # es) ! i);
          pb = snd ((e # es) ! i);
          rest = tl ((e # es)[i := e]);
          p = hd pa
      in if p = 0 then None
         else case lu_solve (map (elim_row p pa pb) rest) of
                None \<Rightarrow> None
              | Some X \<Rightarrow> Some (subst_row p pa pb X # X))"
  by pat_completeness auto
termination
  by (relation "measure length") (auto split: nat.splits)

declare lu_solve.simps(2) [simp del]

definition matrix_solve :: "matrix \<Rightarrow> matrix \<Rightarrow> error + matrix" where
  "matrix_solve M rhs =
     (case lu_solve (zip M rhs) of None \<Rightarrow> Inl NotInvertible | Some X \<Rightarrow> Inr X)"

subsection \<open>The graph of the notebook and its evaluation\<close>

text \<open>
  Building the graph infers the shape of every node, in the order of the notebook's
  lines, and raises at the first operation whose operands do not fit; nothing is computed
  before \<^verbatim>\<open>sess.run\<close>.
\<close>

definition graph_shapes :: "shape \<Rightarrow> shape \<Rightarrow> error + shape" where
  "graph_shapes sA sy =
     (case matmul_shape (transpose_shape sA) sA of Inl e \<Rightarrow> Inl e | Inr s_tA_A \<Rightarrow>
     (case cholesky_shape s_tA_A of Inl e \<Rightarrow> Inl e | Inr s_L \<Rightarrow>
     (case matmul_shape (transpose_shape sA) sy of Inl e \<Rightarrow> Inl e | Inr s_tA_y \<Rightarrow>
     (case matrix_solve_shape s_L s_tA_y of Inl e \<Rightarrow> Inl e | Inr s_sol1 \<Rightarrow>
      matrix_solve_shape (transpose_shape s_L) s_sol1))))"

definition run_sol2 :: "matrix \<Rightarrow> matrix \<Rightarrow> error + matrix" where
  "run_sol2 A_tensor y =
     (let tA_A = matmul (transpose_m A_tensor) A_tensor
      in case cholesky tA_A of Inl e \<Rightarrow> Inl e | Inr L \<Rightarrow>
         (let tA_y = matmul (transpose_m A_tensor) y
          in case matrix_solve L tA_y of Inl e \<Rightarrow> Inl e | Inr sol1 \<Rightarrow>
             matrix_solve (transpose_m L) sol1))"

definition solution_eval :: "matrix \<Rightarrow> matrix \<Rightarrow> error + matrix" where
  "solution_eval A y =
     (case tf_constant A of Inl e \<Rightarrow> Inl e | Inr A_tensor \<Rightarrow>
     (case tf_constant y of Inl e \<Rightarrow> Inl e | Inr y_tensor \<Rightarrow>
     (case graph_shapes (shape_of A_tensor) (shape_of y_tensor) of Inl e \<Rightarrow> Inl e | Inr _ \<Rightarrow>
      run_sol2 A_tensor y_tensor)))"

text \<open>The data of the notebook: \<^verbatim>\<open>np.linspace(0, 10, 100)\<close> and the design matrix.\<close>

definition x_vals :: "real list" where
  "x_vals = map (\<lambda>i. 10 * real i / 99) [0..<100]"

definition design :: "real list \<Rightarrow> matrix" where
  "design xs = map (\<lambda>x. [x, 1]) xs"

definition column :: "real list \<Rightarrow> matrix" where
  "column v = map (\<lambda>x. [x]) v"

text \<open>The coefficients read off the solution: \<^verbatim>\<open>solution_eval[0][0]\<close> and \<^verbatim>\<open>solution_eval[1][0]\<close>.\<close>

definition slope :: "matrix \<Rightarrow> real" where
  "slope sol = sol ! 0 ! 0"

definition y_intercept :: "matrix \<Rightarrow> real" where
  "y_intercept sol = sol ! 1 ! 0"

subsection \<open>Vocabulary of the properties\<close>

definition is_mat :: "nat \<Rightarrow> nat \<Rightarrow> matrix \<Rightarrow> bool" where
  "is_mat n k M = (length M = n \<and> (\<forall>r\<in>set M. length r = k))"

definition rows_ok :: "nat \<Rightarrow> nat \<Rightarrow> (real list \<times> real list) list \<Rightarrow> bool" where
  "rows_ok n c rows =
     (length rows = n \<and> (\<forall>ab\<in>set rows. length (fst ab) = n \<and> length (snd ab) = c))"

text \<open>\<open>M x = 0\<close> only for \<open>x = 0\<close>, for vectors \<open>x\<close> of length \<open>k\<close>.\<close>

definition trivial_kernel :: "nat \<Rightarrow> matrix \<Rightarrow> bool" where
  "trivial_kernel k M =
     (\<forall>x. length x = k \<and> (\<forall>r\<in>set M. dot r x = 0) \<longrightarrow> x = replicate k 0)"

definition full_column_rank :: "matrix \<Rightarrow> bool" where
  "full_column_rank A = trivial_kernel (ncols A) A"

definition symmetric :: "matrix \<Rightarrow> bool" where
  "symmetric M = (\<forall>i<length M. \<forall>j<length M. M ! i ! j = M ! j ! i)"

definition lower_triangular :: "matrix \<Rightarrow> bool" where
  "lower_triangular L = (\<forall>i<length L. \<forall>j<length L. i < j \<longrightarrow> L ! i ! j = 0)"

definition upper_triangular :: "matrix \<Rightarrow> bool" where
  "upper_triangular U = (\<forall>i<length U. \<forall>j<length U. j < i \<longrightarrow> U ! i ! j = 0)"

text \<open>The quadratic form \<open>x\<^sup>T M x\<close>.\<close>

definition qf :: "matrix \<Rightarrow> real list \<Rightarrow> real" where
  "qf M x = dot x (map (\<lambda>r. dot r x) M)"

definition pos_def :: "matrix \<Rightarrow> bool" where
  "pos_def M = (\<forall>x. length x = length M \<and> x \<noteq> replicate (length M) 0 \<longrightarrow> 0 < qf M x)"

definition msub :: "matrix \<Rightarrow> matrix \<Rightarrow> matrix" where
  "msub X Y = map2 vsub X Y"

text \<open>
  Substitution as the specification words it, for the comparison with the general solver:
  \<open>forwardSolve\<close> goes through the rows from the top and uses the entries of \<open>z\<close> found so
  far; \<open>backSolve\<close> finds the entries below a row before the entry of that row.
\<close>

fun forward_rows :: "matrix \<Rightarrow> real list \<Rightarrow> real list \<Rightarrow> real list" where
  "forward_rows (r # rs) (b # bs) z =
     forward_rows rs bs (z @ [(b - dot (take (length z) r) z) / r ! length z])"
| "forward_rows _ _ z = z"

definition forwardSolve :: "matrix \<Rightarrow> real list \<Rightarrow> real list" where
  "forwardSolve L b = forward_rows L b []"

fun backSolve :: "matrix \<Rightarrow> real list \<Rightarrow> real list" where
  "backSolve (r # rs) (z # zs) =
     (let x' = backSolve (map tl rs) zs in ((z - dot (tl r) x') / hd r) # x')"
| "backSolve _ _ = []"

subsection \<open>Vectors and columns\<close>

lemma dot_Nil2 [simp]: "dot xs [] = 0"
  by (cases xs) simp_all

lemma dot_commute: "dot u v = dot v u"
  by (induction u v rule: dot.induct) simp_all

lemma dot_replicate_zero [simp]: "dot (replicate n 0) x = 0"
proof (induction n arbitrary: x)
  case (Suc n) then show ?case by (cases x) simp_all
qed simp

lemma dot_replicate_zero2 [simp]: "dot x (replicate n 0) = 0"
  by (simp add: dot_commute[of x])

lemma vsub_Cons [simp]: "vsub (x # xs) (y # ys) = (x - y) # vsub xs ys"
  by (simp add: vsub_def)

lemma vsub_Nil [simp]: "vsub [] v = []" "vsub u [] = []"
  by (simp_all add: vsub_def)

lemma smul_Cons [simp]: "smul f (x # xs) = (f * x) # smul f xs"
  by (simp add: smul_def)

lemma smul_Nil [simp]: "smul f [] = []"
  by (simp add: smul_def)

lemma dot_vsub_smul:
  "length u = length v \<Longrightarrow> dot (vsub u (smul f v)) w = dot u w - f * dot v w"
proof (induction u v arbitrary: w rule: list_induct2)
  case Nil then show ?case by simp
next
  case (Cons x xs y ys)
  then show ?case by (cases w) (simp_all add: algebra_simps)
qed

lemma dot_vsub_right:
  "length u = length v \<Longrightarrow> dot w (vsub u v) = dot w u - dot w v"
proof (induction u v arbitrary: w rule: list_induct2)
  case Nil then show ?case by simp
next
  case (Cons x xs y ys)
  then show ?case by (cases w) (simp_all add: algebra_simps)
qed

lemma length_vsub [simp]: "length (vsub u v) = min (length u) (length v)"
  by (simp add: vsub_def)

lemma length_smul [simp]: "length (smul f v) = length v"
  by (simp add: smul_def)

lemma col_Cons [simp]: "col j (x # X) = (x ! j) # col j X"
  by (simp add: col_def)

lemma col_Nil [simp]: "col j [] = []"
  by (simp add: col_def)

lemma length_col [simp]: "length (col j X) = length X"
  by (simp add: col_def)

lemma argmax_abs_less: "xs \<noteq> [] \<Longrightarrow> argmax_abs xs < length xs"
  by (induction xs rule: argmax_abs.induct) (auto simp: Let_def)

lemma argmax_abs_max: "x \<in> set xs \<Longrightarrow> \<bar>x\<bar> \<le> \<bar>xs ! argmax_abs xs\<bar>"
proof (induction xs rule: argmax_abs.induct)
  case (3 y z zs)
  then show ?case by (auto simp: Let_def)
qed simp_all

lemma set_swap_tl:
  "i < length (e # es) \<Longrightarrow> set (e # es) = insert ((e # es) ! i) (set (tl ((e # es)[i := e])))"
proof (cases i)
  case 0 then show ?thesis by simp
next
  case (Suc j)
  assume "i < length (e # es)"
  with Suc have j: "j < length es" by simp
  have "set (es[j := e]) = insert e (set (take j es) \<union> set (drop (Suc j) es))"
    using j by (simp add: upd_conv_take_nth_drop)
  moreover have "set es = set (take j es) \<union> insert (es ! j) (set (drop (Suc j) es))"
    using j by (metis id_take_nth_drop list.simps(15) set_append)
  ultimately show ?thesis using Suc by auto
qed

subsection \<open>The solver returns a solution\<close>

lemma length_subst_row [simp]: "length (subst_row p pa pb X) = length pb"
  by (simp add: subst_row_def)

lemma nth_subst_row:
  "j < length pb \<Longrightarrow> subst_row p pa pb X ! j = (pb ! j - dot (tl pa) (col j X)) / p"
  by (simp add: subst_row_def)

lemma nth_vsub: "j < length u \<Longrightarrow> j < length v \<Longrightarrow> vsub u v ! j = u ! j - v ! j"
  by (simp add: vsub_def)

lemma nth_smul: "j < length v \<Longrightarrow> smul f v ! j = f * v ! j"
  by (simp add: smul_def)

lemma lu_solve_Cons:
  "lu_solve (e # es) =
     (let i = argmax_abs (map (\<lambda>ab. hd (fst ab)) (e # es));
          pa = fst ((e # es) ! i);
          pb = snd ((e # es) ! i);
          rest = tl ((e # es)[i := e]);
          p = hd pa
      in if p = 0 then None
         else case lu_solve (map (elim_row p pa pb) rest) of
                None \<Rightarrow> None
              | Some X \<Rightarrow> Some (subst_row p pa pb X # X))"
  by (rule lu_solve.simps(2))


lemma rows_ok_step:
  assumes ok: "rows_ok (Suc n) c (e # es)"
  defines "i \<equiv> argmax_abs (map (\<lambda>ab. hd (fst ab)) (e # es))"
  defines "pa \<equiv> fst ((e # es) ! i)" and "pb \<equiv> snd ((e # es) ! i)"
  defines "rest \<equiv> tl ((e # es)[i := e])"
  shows "i < Suc n" "length pa = Suc n" "length pb = c" "length rest = n"
    "set (e # es) = insert (pa, pb) (set rest)"
    "rows_ok n c (map (elim_row p pa pb) rest)"
    "\<forall>ab\<in>set rest. length (fst ab) = Suc n \<and> length (snd ab) = c"
proof -
  have len: "length (e # es) = Suc n" using ok by (simp add: rows_ok_def)
  show i: "i < Suc n"
    using argmax_abs_less[of "map (\<lambda>ab. hd (fst ab)) (e # es)"] len by (simp add: i_def)
  then have mem: "(e # es) ! i \<in> set (e # es)" using len by (metis nth_mem)
  show "length pa = Suc n" "length pb = c"
    using ok mem unfolding rows_ok_def pa_def pb_def by blast+
  show lr: "length rest = n" using len by (simp add: rest_def split: nat.splits)
  show st: "set (e # es) = insert (pa, pb) (set rest)"
    using set_swap_tl[of i e es] i len by (simp add: pa_def pb_def rest_def)
  then show r: "\<forall>ab\<in>set rest. length (fst ab) = Suc n \<and> length (snd ab) = c"
    using ok unfolding rows_ok_def by (metis insertCI)
  show "rows_ok n c (map (elim_row p pa pb) rest)"
    unfolding rows_ok_def using lr r \<open>length pa = Suc n\<close> \<open>length pb = c\<close>
    by (auto simp: elim_row_def Let_def)
qed

lemma lu_solve_sound:
  assumes "rows_ok n c rows" "lu_solve rows = Some X"
  shows "length X = n \<and> (\<forall>x\<in>set X. length x = c) \<and>
         (\<forall>ab\<in>set rows. \<forall>j<c. dot (fst ab) (col j X) = snd ab ! j)"
  using assms
proof (induction n arbitrary: rows X)
  case 0
  then show ?case by (simp add: rows_ok_def)
next
  case (Suc n)
  from Suc.prems(1) obtain e es where rows: "rows = e # es"
    by (cases rows) (auto simp: rows_ok_def)
  define i where "i = argmax_abs (map (\<lambda>ab. hd (fst ab)) (e # es))"
  define pa where "pa = fst ((e # es) ! i)"
  define pb where "pb = snd ((e # es) ! i)"
  define rest where "rest = tl ((e # es)[i := e])"
  define p where "p = hd pa"
  have ok: "rows_ok (Suc n) c (e # es)" using Suc.prems rows by simp
  note st = rows_ok_step[OF ok, folded i_def pa_def pb_def rest_def]
  have eq: "lu_solve (e # es) =
      (if p = 0 then None
       else case lu_solve (map (elim_row p pa pb) rest) of
              None \<Rightarrow> None | Some X \<Rightarrow> Some (subst_row p pa pb X # X))"
    unfolding lu_solve_Cons Let_def i_def pa_def pb_def rest_def p_def ..
  have sX: "lu_solve (e # es) = Some X" using Suc.prems(2) rows by simp
  have p0: "p \<noteq> 0"
  proof
    assume "p = 0"
    with eq have "lu_solve (e # es) = None" by simp
    with sX show False by simp
  qed
  obtain X' where
    X': "lu_solve (map (elim_row p pa pb) rest) = Some X'" and X: "X = subst_row p pa pb X' # X'"
  proof (cases "lu_solve (map (elim_row p pa pb) rest)")
    case None
    with eq p0 have "lu_solve (e # es) = None" by simp
    with sX show ?thesis by simp
  next
    case (Some X')
    with eq p0 have "lu_solve (e # es) = Some (subst_row p pa pb X' # X')" by simp
    with sX Some that show ?thesis by simp
  qed
  note ih = Suc.IH[OF st(6) X']
  have lX': "length X' = n" using ih by (rule conjunct1)
  have wX': "\<forall>x\<in>set X'. length x = c" using ih by (elim conjE)
  have sat: "\<forall>ab\<in>set (map (elim_row p pa pb) rest). \<forall>j<c. dot (fst ab) (col j X') = snd ab ! j"
    using ih by (elim conjE)
  have pa_split: "pa = p # tl pa" using st(2) by (cases pa) (simp_all add: p_def)
  have piv: "dot pa (col j X) = pb ! j" if "j < c" for j
  proof -
    have "dot pa (col j X) = p * ((pb ! j - dot (tl pa) (col j X')) / p) + dot (tl pa) (col j X')"
      using that st(3) by (subst pa_split) (simp add: X nth_subst_row)
    then show ?thesis using p0 by simp
  qed
  have oth: "dot (fst ab) (col j X) = snd ab ! j" if ab: "ab \<in> set rest" and j: "j < c" for ab j
  proof -
    obtain a b where abe: "ab = (a, b)" by (cases ab)
    have la: "length a = Suc n" and lb: "length b = c" using st(7) ab abe by auto
    have a_split: "a = hd a # tl a" using la by (cases a) simp_all
    define f where "f = hd a / p"
    have "elim_row p pa pb ab \<in> set (map (elim_row p pa pb) rest)" using ab by simp
    from sat[rule_format, OF this j]
    have "dot (vsub (tl a) (smul f (tl pa))) (col j X') = vsub b (smul f pb) ! j"
      by (simp add: elim_row_def abe f_def Let_def)
    moreover have "dot (vsub (tl a) (smul f (tl pa))) (col j X')
        = dot (tl a) (col j X') - f * dot (tl pa) (col j X')"
      using la st(2) by (intro dot_vsub_smul) simp
    moreover have "vsub b (smul f pb) ! j = b ! j - f * pb ! j"
      using lb st(3) j by (simp add: nth_vsub nth_smul)
    ultimately have e1: "dot (tl a) (col j X') = b ! j - f * pb ! j + f * dot (tl pa) (col j X')"
      by simp
    have "dot a (col j X) = hd a * ((pb ! j - dot (tl pa) (col j X')) / p) + dot (tl a) (col j X')"
      using j st(3) by (subst a_split) (simp add: X nth_subst_row)
    also have "hd a * ((pb ! j - dot (tl pa) (col j X')) / p) = f * (pb ! j - dot (tl pa) (col j X'))"
      by (simp add: f_def)
    finally show ?thesis using e1 by (simp add: abe algebra_simps)
  qed
  have "length X = Suc n" using lX' X by simp
  moreover have "\<forall>x\<in>set X. length x = c" using wX' X st(3) by simp
  moreover have "\<forall>ab\<in>set rows. \<forall>j<c. dot (fst ab) (col j X) = snd ab ! j"
  proof (intro ballI allI impI)
    fix ab j assume "ab \<in> set rows" and j: "j < c"
    then have "ab = (pa, pb) \<or> ab \<in> set rest" unfolding rows st(5) by simp
    then show "dot (fst ab) (col j X) = snd ab ! j" using piv[OF j] oth[OF _ j] by auto
  qed
  ultimately show ?case by (intro conjI)
qed

subsection \<open>The solver succeeds exactly on matrices with a trivial kernel\<close>

lemma lu_solve_eq:
  fixes e es
  defines "i \<equiv> argmax_abs (map (\<lambda>ab. hd (fst ab)) (e # es))"
  defines "pa \<equiv> fst ((e # es) ! i)" and "pb \<equiv> snd ((e # es) ! i)"
  defines "rest \<equiv> tl ((e # es)[i := e])"
  shows "lu_solve (e # es) =
      (if hd pa = 0 then None
       else case lu_solve (map (elim_row (hd pa) pa pb) rest) of
              None \<Rightarrow> None | Some X \<Rightarrow> Some (subst_row (hd pa) pa pb X # X))"
  unfolding lu_solve_Cons Let_def i_def pa_def pb_def rest_def ..

lemma lu_solve_success_iff:
  assumes "rows_ok n c rows"
  shows "lu_solve rows \<noteq> None \<longleftrightarrow> trivial_kernel n (map fst rows)"
  using assms
proof (induction n arbitrary: rows)
  case 0
  then show ?case by (simp add: rows_ok_def trivial_kernel_def)
next
  case (Suc n)
  then obtain e es where rows: "rows = e # es"
    by (cases rows) (auto simp: rows_ok_def)
  define i where "i = argmax_abs (map (\<lambda>ab. hd (fst ab)) (e # es))"
  define pa where "pa = fst ((e # es) ! i)"
  define pb where "pb = snd ((e # es) ! i)"
  define rest where "rest = tl ((e # es)[i := e])"
  define p where "p = hd pa"
  define rest' where "rest' = map (elim_row p pa pb) rest"
  have ok: "rows_ok (Suc n) c (e # es)" using Suc.prems rows by simp
  note st = rows_ok_step[OF ok, folded i_def pa_def pb_def rest_def]
  have eq: "lu_solve (e # es) =
      (if p = 0 then None
       else case lu_solve rest' of
              None \<Rightarrow> None | Some X \<Rightarrow> Some (subst_row p pa pb X # X))"
    unfolding rest'_def p_def pa_def pb_def rest_def i_def by (rule lu_solve_eq)
  have pa_split: "pa = p # tl pa" using st(2) by (cases pa) (simp_all add: p_def)
  have fsts: "set (map fst (e # es)) = insert pa (fst ` set rest)"
    using st(5) by (metis fst_conv image_insert set_map)
  have hd_le: "\<bar>hd a\<bar> \<le> \<bar>p\<bar>" if "a \<in> set (map fst (e # es))" for a
  proof -
    have "hd a \<in> set (map (\<lambda>ab. hd (fst ab)) (e # es))" using that by auto
    from argmax_abs_max[OF this] have "\<bar>hd a\<bar> \<le> \<bar>map (\<lambda>ab. hd (fst ab)) (e # es) ! i\<bar>"
      by (simp add: i_def)
    also have "map (\<lambda>ab. hd (fst ab)) (e # es) ! i = p"
      using st(1) ok by (simp add: rows_ok_def p_def pa_def del: nth_Cons_Suc list.map)
    finally show ?thesis .
  qed
  have la: "length a = Suc n" if "a \<in> set (map fst (e # es))" for a
    using ok that by (auto simp: rows_ok_def)
  show ?case
  proof (cases "p = 0")
    case True
    have "dot a (1 # replicate n 0) = 0" if "a \<in> set (map fst (e # es))" for a
    proof -
      have "hd a = 0" using hd_le[OF that] True by simp
      moreover have "a = hd a # tl a" using la[OF that] by (cases a) simp_all
      ultimately show ?thesis by (metis dot.simps(1) dot_replicate_zero2 mult_zero_left add_0)
    qed
    then have z1: "\<forall>r\<in>set (map fst (e # es)). dot r (1 # replicate n 0) = 0" by blast
    have "\<not> trivial_kernel (Suc n) (map fst (e # es))"
    proof
      assume "trivial_kernel (Suc n) (map fst (e # es))"
      with z1 have "1 # replicate n 0 = replicate (Suc n) (0::real)"
        unfolding trivial_kernel_def by (metis length_Cons length_replicate)
      then show False by simp
    qed
    then show ?thesis using True eq rows by simp
  next
    case False
    have "lu_solve rows \<noteq> None \<longleftrightarrow> lu_solve rest' \<noteq> None"
      using False eq rows by (simp split: option.splits)
    also have "\<dots> \<longleftrightarrow> trivial_kernel n (map fst rest')"
      using Suc.IH[OF st(6)[of p]] by (simp add: rest'_def)
    also have "\<dots> \<longleftrightarrow> trivial_kernel (Suc n) (map fst (e # es))"
    proof
      assume tk: "trivial_kernel n (map fst rest')"
      show "trivial_kernel (Suc n) (map fst (e # es))"
        unfolding trivial_kernel_def
      proof (intro allI impI, elim conjE)
        fix x assume lx: "length x = Suc n" and z: "\<forall>r\<in>set (map fst (e # es)). dot r x = 0"
        obtain x0 x' where x: "x = x0 # x'" and lx': "length x' = n"
          using lx by (cases x) auto
        have pz: "p * x0 + dot (tl pa) x' = 0"
          using z fsts x pa_split by (metis dot.simps(1) insertI1)
        have "dot r x' = 0" if "r \<in> set (map fst rest')" for r
        proof -
          from that obtain ab where ab: "ab \<in> set rest" and r: "r = fst (elim_row p pa pb ab)"
            by (auto simp: rest'_def)
          define a where "a = fst ab"
          have am: "a \<in> set (map fst (e # es))" using ab fsts by (auto simp: a_def)
          have a_split: "a = hd a # tl a" using la[OF am] by (cases a) simp_all
          have az: "hd a * x0 + dot (tl a) x' = 0"
            using z am x a_split by (metis dot.simps(1))
          have "r = vsub (tl a) (smul (hd a / p) (tl pa))"
            by (simp add: r elim_row_def Let_def a_def)
          then have "dot r x' = dot (tl a) x' - hd a / p * dot (tl pa) x'"
            using la[OF am] st(2) by (simp add: dot_vsub_smul)
          also have "dot (tl pa) x' = - p * x0" using pz by simp
          also have "dot (tl a) x' = - hd a * x0" using az by simp
          finally show ?thesis using False by simp
        qed
        with tk lx' have x'0: "x' = replicate n 0" by (simp add: trivial_kernel_def)
        with pz False have "x0 = 0" by simp
        with x'0 x show "x = replicate (Suc n) 0" by simp
      qed
    next
      assume tk: "trivial_kernel (Suc n) (map fst (e # es))"
      show "trivial_kernel n (map fst rest')"
        unfolding trivial_kernel_def
      proof (intro allI impI, elim conjE)
        fix x' assume lx': "length x' = n" and z: "\<forall>r\<in>set (map fst rest'). dot r x' = 0"
        define x0 where "x0 = - dot (tl pa) x' / p"
        have pz: "p * x0 + dot (tl pa) x' = 0" using False by (simp add: x0_def)
        have "dot a (x0 # x') = 0" if am: "a \<in> set (map fst (e # es))" for a
        proof (cases "a = pa")
          case True
          then show ?thesis using pz pa_split by (metis dot.simps(1))
        next
          case neq: False
          with am fsts obtain ab where ab: "ab \<in> set rest" and a: "a = fst ab" by auto
          have a_split: "a = hd a # tl a" using la[OF am] by (cases a) simp_all
          have "fst (elim_row p pa pb ab) \<in> set (map fst rest')"
            using ab by (simp add: rest'_def)
          with z have "dot (fst (elim_row p pa pb ab)) x' = 0" by blast
          moreover have "fst (elim_row p pa pb ab) = vsub (tl a) (smul (hd a / p) (tl pa))"
            by (simp add: elim_row_def Let_def a)
          ultimately have "dot (tl a) x' - hd a / p * dot (tl pa) x' = 0"
            using la[OF am] st(2) by (simp add: dot_vsub_smul)
          moreover have "dot (tl pa) x' = - p * x0" using pz by simp
          ultimately have "hd a * x0 + dot (tl a) x' = 0" using False by simp
          then show ?thesis using a_split by (metis dot.simps(1))
        qed
        with tk lx' have "x0 # x' = replicate (Suc n) 0"
          unfolding trivial_kernel_def by (metis length_Cons)
        then show "x' = replicate n 0" by simp
      qed
    qed
    finally show ?thesis using rows by simp
  qed
qed

subsection \<open>Solving with a matrix right-hand side\<close>

lemma rows_ok_zip:
  "is_mat n n M \<Longrightarrow> is_mat n c B \<Longrightarrow> rows_ok n c (zip M B)"
  unfolding is_mat_def rows_ok_def by (auto dest: set_zip_leftD set_zip_rightD)

lemma ncols_is_mat: "is_mat n k M \<Longrightarrow> 0 < n \<Longrightarrow> ncols M = k"
  by (cases M) (auto simp: is_mat_def ncols_def)

lemma is_mat_rectangular: "is_mat n k M \<Longrightarrow> rectangular M"
  by (cases M) (auto simp: is_mat_def rectangular_def ncols_def list_all_iff)

lemma rectangular_is_mat: "rectangular M \<Longrightarrow> is_mat (length M) (ncols M) M"
  by (auto simp: is_mat_def rectangular_def list_all_iff)

lemma matmul_eqI:
  assumes M: "is_mat n k M" and X: "is_mat k c X" and B: "is_mat n c B" and k: "0 < k"
    and ent: "\<And>i j. i < n \<Longrightarrow> j < c \<Longrightarrow> dot (M ! i) (col j X) = B ! i ! j"
  shows "matmul M X = B"
proof (rule nth_equalityI)
  show "length (matmul M X) = length B" using M B by (simp add: matmul_def is_mat_def)
next
  fix i assume "i < length (matmul M X)"
  then have i: "i < n" using M by (simp add: matmul_def is_mat_def)
  have nc: "ncols X = c" using X k by (rule ncols_is_mat)
  have lb: "length (B ! i) = c" using B i by (simp add: is_mat_def)
  show "matmul M X ! i = B ! i"
  proof (rule nth_equalityI)
    show "length (matmul M X ! i) = length (B ! i)"
      using i M nc lb by (simp add: matmul_def is_mat_def)
  next
    fix j assume "j < length (matmul M X ! i)"
    then have j: "j < c" using i M nc by (simp add: matmul_def is_mat_def)
    show "matmul M X ! i ! j = B ! i ! j"
      using i j M nc ent[OF i j] by (simp add: matmul_def is_mat_def)
  qed
qed

lemma matmul_nth:
  assumes "i < length M" "j < ncols X"
  shows "matmul M X ! i ! j = dot (M ! i) (col j X)"
  using assms by (simp add: matmul_def)

lemma is_mat_matmul: "is_mat n k M \<Longrightarrow> is_mat n (ncols X) (matmul M X)"
  by (auto simp: is_mat_def matmul_def)

lemma matrix_solve_sound:
  assumes M: "is_mat n n M" and B: "is_mat n c B" and s: "matrix_solve M B = Inr X"
  shows "is_mat n c X \<and> matmul M X = B"
proof -
  from s have lu: "lu_solve (zip M B) = Some X"
    by (auto simp: matrix_solve_def split: option.splits)
  from lu_solve_sound[OF rows_ok_zip[OF M B] lu]
  have X: "is_mat n c X" and sat: "\<forall>ab\<in>set (zip M B). \<forall>j<c. dot (fst ab) (col j X) = snd ab ! j"
    by (auto simp: is_mat_def)
  have "matmul M X = B"
  proof (cases "n = 0")
    case True
    then show ?thesis using M B by (simp add: is_mat_def matmul_def)
  next
    case False
    show ?thesis
    proof (rule matmul_eqI[OF M X B])
      show "0 < n" using False by simp
    next
      fix i j assume i: "i < n" and j: "j < c"
      have "(M ! i, B ! i) \<in> set (zip M B)"
        unfolding in_set_zip using i M B by (intro exI[of _ i]) (simp add: is_mat_def)
      from sat[rule_format, OF this j] show "dot (M ! i) (col j X) = B ! i ! j" by simp
    qed
  qed
  with X show ?thesis by simp
qed

lemma matrix_solve_success_iff:
  assumes M: "is_mat n n M" and B: "is_mat n c B"
  shows "(\<exists>X. matrix_solve M B = Inr X) \<longleftrightarrow> trivial_kernel n M"
proof -
  have "map fst (zip M B) = M" using M B by (simp add: is_mat_def)
  with lu_solve_success_iff[OF rows_ok_zip[OF M B]]
  have "lu_solve (zip M B) \<noteq> None \<longleftrightarrow> trivial_kernel n M" by simp
  then show ?thesis by (auto simp: matrix_solve_def split: option.splits)
qed

lemma matrix_solve_error:
  "matrix_solve M B = Inl e \<Longrightarrow> e = NotInvertible"
  by (auto simp: matrix_solve_def split: option.splits)

lemma col_nth: "i < length X \<Longrightarrow> col j X ! i = X ! i ! j"
  by (simp add: col_def)

lemma trivial_kernel_unique:
  assumes tk: "trivial_kernel k M" and X: "is_mat k c X" and Y: "is_mat k c Y"
    and eq: "\<And>r j. r \<in> set M \<Longrightarrow> j < c \<Longrightarrow> dot r (col j X) = dot r (col j Y)"
  shows "X = Y"
proof -
  have cols: "col j X = col j Y" if j: "j < c" for j
  proof -
    have l: "length (col j X) = length (col j Y)" using X Y by (simp add: is_mat_def)
    have "\<forall>r\<in>set M. dot r (vsub (col j X) (col j Y)) = 0"
      using eq[OF _ j] l by (simp add: dot_vsub_right)
    moreover have "length (vsub (col j X) (col j Y)) = k" using X Y by (simp add: is_mat_def)
    ultimately have "vsub (col j X) (col j Y) = replicate k 0"
      using tk by (simp add: trivial_kernel_def)
    then have "\<forall>i<k. col j X ! i - col j Y ! i = 0"
      using X Y by (metis is_mat_def length_col nth_replicate nth_vsub)
    then show ?thesis using X Y by (simp add: is_mat_def list_eq_iff_nth_eq)
  qed
  show ?thesis
  proof (rule nth_equalityI)
    show "length X = length Y" using X Y by (simp add: is_mat_def)
  next
    fix i assume "i < length X"
    then have i: "i < k" using X by (simp add: is_mat_def)
    have "X ! i ! j = Y ! i ! j" if "j < c" for j
      using cols[OF that] i X Y by (metis col_nth is_mat_def)
    moreover have "length (X ! i) = c" "length (Y ! i) = c"
      using i X Y by (simp_all add: is_mat_def)
    ultimately show "X ! i = Y ! i" by (simp add: list_eq_iff_nth_eq)
  qed
qed

lemma matmul_eqD:
  assumes M: "is_mat n k M" and X: "is_mat k c X" and k: "0 < k"
    and i: "i < n" and j: "j < c"
  shows "matmul M X ! i ! j = dot (M ! i) (col j X)"
proof -
  have "i < length M" using i M by (simp add: is_mat_def)
  moreover have "j < ncols X" using j ncols_is_mat[OF X k] by simp
  ultimately show ?thesis by (rule matmul_nth)
qed

lemma matrix_solve_unique:
  assumes M: "is_mat n n M" and B: "is_mat n c B" and tk: "trivial_kernel n M"
    and Y: "is_mat n c Y" and eq: "matmul M Y = B"
  shows "matrix_solve M B = Inr Y"
proof -
  from matrix_solve_success_iff[OF M B] tk obtain X where s: "matrix_solve M B = Inr X"
    by blast
  from matrix_solve_sound[OF M B s] have X: "is_mat n c X" and mx: "matmul M X = B" by simp_all
  have "X = Y"
  proof (cases "n = 0")
    case True then show ?thesis using X Y by (simp add: is_mat_def)
  next
    case False
    then have n: "0 < n" by simp
    show ?thesis
    proof (rule trivial_kernel_unique[OF tk X Y])
      fix r j assume r: "r \<in> set M" and j: "j < c"
      then obtain i where i: "i < n" and ri: "r = M ! i"
        using M by (metis in_set_conv_nth is_mat_def)
      have "dot (M ! i) (col j X) = matmul M X ! i ! j" using matmul_eqD[OF M X n i j] by simp
      also have "\<dots> = matmul M Y ! i ! j" using mx eq by simp
      also have "\<dots> = dot (M ! i) (col j Y)" using matmul_eqD[OF M Y n i j] by simp
      finally show "dot r (col j X) = dot r (col j Y)" by (simp add: ri)
    qed
  qed
  with s show ?thesis by simp
qed

subsection \<open>Products as sums over indices\<close>

lemma dot_sum: "length u = length v \<Longrightarrow> dot u v = (\<Sum>i<length u. u ! i * v ! i)"
proof (induction u v rule: list_induct2)
  case Nil then show ?case by simp
next
  case (Cons x xs y ys)
  then show ?case by (simp add: sum.lessThan_Suc_shift del: sum.lessThan_Suc)
qed

lemma is_mat_nth: "is_mat n k M \<Longrightarrow> i < n \<Longrightarrow> length (M ! i) = k"
  by (simp add: is_mat_def)

lemma is_mat_length: "is_mat n k M \<Longrightarrow> length M = n"
  by (simp add: is_mat_def)

lemma is_matI: "length M = n \<Longrightarrow> (\<And>i. i < n \<Longrightarrow> length (M ! i) = k) \<Longrightarrow> is_mat n k M"
  unfolding is_mat_def by (metis in_set_conv_nth)

lemma transpose_m_nth:
  assumes "is_mat n k M" "0 < n" "j < k"
  shows "transpose_m M ! j = col j M"
  using assms ncols_is_mat[OF assms(1,2)] by (simp add: transpose_m_def)

lemma is_mat_transpose:
  assumes "is_mat n k M" "0 < n"
  shows "is_mat k n (transpose_m M)"
  using assms ncols_is_mat[OF assms] by (auto simp: is_mat_def transpose_m_def)

lemma col_transpose:
  assumes M: "is_mat n k M" and j: "j < n"
  shows "col j (transpose_m M) = M ! j"
proof -
  have n: "0 < n" using j by simp
  have nc: "ncols M = k" using ncols_is_mat[OF M n] .
  have lj: "length (M ! j) = k" using is_mat_nth[OF M j] .
  have "col j (transpose_m M) = map (\<lambda>i. M ! j ! i) [0..<k]"
    using j M by (simp add: col_def transpose_m_def nc is_mat_def)
  also have "\<dots> = M ! j" using lj by (metis map_nth)
  finally show ?thesis .
qed

lemma matmul_entry:
  assumes A: "is_mat m p A" and B: "is_mat p q B" and p: "0 < p" and i: "i < m" and j: "j < q"
  shows "matmul A B ! i ! j = (\<Sum>t<p. A ! i ! t * B ! t ! j)"
proof -
  have "matmul A B ! i ! j = dot (A ! i) (col j B)" using matmul_eqD[OF A B p i j] .
  also have "\<dots> = (\<Sum>t<length (A ! i). A ! i ! t * col j B ! t)"
    using is_mat_nth[OF A i] is_mat_length[OF B] by (intro dot_sum) simp
  also have "\<dots> = (\<Sum>t<p. A ! i ! t * B ! t ! j)"
    using is_mat_nth[OF A i] is_mat_length[OF B] by (intro sum.cong) (simp_all add: col_nth)
  finally show ?thesis .
qed

lemma is_mat_matmul2:
  assumes A: "is_mat m p A" and B: "is_mat p q B" and p: "0 < p"
  shows "is_mat m q (matmul A B)"
  using is_mat_matmul[OF A, of B] ncols_is_mat[OF B p] by simp

lemma mat_eqI:
  assumes X: "is_mat n c X" and Y: "is_mat n c Y"
    and ent: "\<And>i j. i < n \<Longrightarrow> j < c \<Longrightarrow> X ! i ! j = Y ! i ! j"
  shows "X = Y"
proof (rule nth_equalityI)
  show "length X = length Y" using X Y by (simp add: is_mat_def)
next
  fix i assume "i < length X"
  then have i: "i < n" using X by (simp add: is_mat_def)
  show "X ! i = Y ! i"
    using is_mat_nth[OF X i] is_mat_nth[OF Y i] ent[OF i] by (simp add: list_eq_iff_nth_eq)
qed

lemma matmul_assoc:
  assumes A: "is_mat m p A" and B: "is_mat p q B" and C: "is_mat q c C"
    and p: "0 < p" and q: "0 < q"
  shows "matmul (matmul A B) C = matmul A (matmul B C)"
proof (rule mat_eqI)
  have AB: "is_mat m q (matmul A B)" using is_mat_matmul2[OF A B p] .
  have BC: "is_mat p c (matmul B C)" using is_mat_matmul2[OF B C q] .
  show "is_mat m c (matmul (matmul A B) C)" using is_mat_matmul2[OF AB C q] .
  show "is_mat m c (matmul A (matmul B C))" using is_mat_matmul2[OF A BC p] .
  fix i j assume i: "i < m" and j: "j < c"
  have "matmul (matmul A B) C ! i ! j = (\<Sum>l<q. matmul A B ! i ! l * C ! l ! j)"
    using matmul_entry[OF AB C q i j] .
  also have "\<dots> = (\<Sum>l<q. (\<Sum>t<p. A ! i ! t * B ! t ! l) * C ! l ! j)"
    using matmul_entry[OF A B p i] by simp
  also have "\<dots> = (\<Sum>l<q. \<Sum>t<p. A ! i ! t * (B ! t ! l * C ! l ! j))"
    by (simp add: sum_distrib_right mult.assoc)
  also have "\<dots> = (\<Sum>t<p. \<Sum>l<q. A ! i ! t * (B ! t ! l * C ! l ! j))"
    by (rule sum.swap)
  also have "\<dots> = (\<Sum>t<p. A ! i ! t * (\<Sum>l<q. B ! t ! l * C ! l ! j))"
    by (simp add: sum_distrib_left)
  also have "\<dots> = (\<Sum>t<p. A ! i ! t * matmul B C ! t ! j)"
    using matmul_entry[OF B C q _ j] by simp
  also have "\<dots> = matmul A (matmul B C) ! i ! j"
    using matmul_entry[OF A BC p i j] by simp
  finally show "matmul (matmul A B) C ! i ! j = matmul A (matmul B C) ! i ! j" .
qed

lemma is_mat_msub: "is_mat n c X \<Longrightarrow> is_mat n c Y \<Longrightarrow> is_mat n c (msub X Y)"
  unfolding is_mat_def msub_def by (auto simp: set_zip)

lemma msub_nth:
  assumes "is_mat n c X" "is_mat n c Y" "i < n" "j < c"
  shows "msub X Y ! i ! j = X ! i ! j - Y ! i ! j"
  using assms by (simp add: msub_def is_mat_def nth_vsub)

lemma matmul_msub:
  assumes A: "is_mat m p A" and X: "is_mat p c X" and Y: "is_mat p c Y" and p: "0 < p"
  shows "matmul A (msub X Y) = msub (matmul A X) (matmul A Y)"
proof (rule mat_eqI)
  have S: "is_mat p c (msub X Y)" using is_mat_msub[OF X Y] .
  have AX: "is_mat m c (matmul A X)" using is_mat_matmul2[OF A X p] .
  have AY: "is_mat m c (matmul A Y)" using is_mat_matmul2[OF A Y p] .
  show "is_mat m c (matmul A (msub X Y))" using is_mat_matmul2[OF A S p] .
  show "is_mat m c (msub (matmul A X) (matmul A Y))" using is_mat_msub[OF AX AY] .
  fix i j assume i: "i < m" and j: "j < c"
  have "matmul A (msub X Y) ! i ! j = (\<Sum>t<p. A ! i ! t * msub X Y ! t ! j)"
    using matmul_entry[OF A S p i j] .
  also have "\<dots> = (\<Sum>t<p. A ! i ! t * X ! t ! j - A ! i ! t * Y ! t ! j)"
    using msub_nth[OF X Y _ j] by (simp add: right_diff_distrib)
  also have "\<dots> = matmul A X ! i ! j - matmul A Y ! i ! j"
    using matmul_entry[OF A X p i j] matmul_entry[OF A Y p i j] by (simp add: sum_subtractf)
  also have "\<dots> = msub (matmul A X) (matmul A Y) ! i ! j"
    using msub_nth[OF AX AY i j] by simp
  finally show "matmul A (msub X Y) ! i ! j = msub (matmul A X) (matmul A Y) ! i ! j" .
qed

lemma msub_self:
  assumes "is_mat n c X"
  shows "msub X X = replicate n (replicate c 0)"
proof (rule mat_eqI)
  show "is_mat n c (msub X X)" using is_mat_msub[OF assms assms] .
  show "is_mat n c (replicate n (replicate c 0))" by (simp add: is_mat_def)
  fix i j assume "i < n" "j < c"
  then show "msub X X ! i ! j = replicate n (replicate c 0) ! i ! j"
    using msub_nth[OF assms assms] by simp
qed

subsection \<open>One step of the factorisation and the quadratic form\<close>

lemma dot_map_add:
  "dot x (map (\<lambda>r. f r + g r) rs) = dot x (map f rs) + dot x (map g rs)"
proof (induction rs arbitrary: x)
  case (Cons r rs) then show ?case by (cases x) (simp_all add: algebra_simps)
qed simp

lemma dot_map_diff:
  "dot x (map (\<lambda>r. f r - g r) rs) = dot x (map f rs) - dot x (map g rs)"
proof (induction rs arbitrary: x)
  case (Cons r rs) then show ?case by (cases x) (simp_all add: algebra_simps)
qed simp

lemma dot_map_mult_right:
  "dot x (map (\<lambda>r. f r * c) rs) = dot x (map f rs) * c"
proof (induction rs arbitrary: x)
  case (Cons r rs) then show ?case by (cases x) (simp_all add: algebra_simps)
qed simp

lemma dot_map_divide:
  "dot x (map (\<lambda>r. f r / c) rs) = dot x (map f rs) / c"
proof (induction rs arbitrary: x)
  case (Cons r rs) then show ?case by (cases x) (simp_all add: add_divide_distrib)
qed simp

lemma cholesky_Cons:
  "cholesky (r # rs) =
     (if hd r \<le> 0 then Inl CholeskyNotSuccessful
      else case cholesky (chol_update (chol_column (sqrt (hd r)) rs) rs) of
             Inl e \<Rightarrow> Inl e
           | Inr L' \<Rightarrow> Inr ((sqrt (hd r) # replicate (length rs) 0)
                          # map2 (#) (chol_column (sqrt (hd r)) rs) L'))"
  by (simp add: cholesky.simps(2) Let_def)

lemma chol_update_eq:
  "chol_update (chol_column l rs) rs
     = map (\<lambda>row. vsub (tl row) (smul (hd row / l) (chol_column l rs))) rs"
  unfolding chol_update_def chol_column_def
  by (simp add: zip_map1 zip_same_conv_map)

lemma length_chol_column [simp]: "length (chol_column l rs) = length rs"
  by (simp add: chol_column_def)

lemma nth_chol_column: "i < length rs \<Longrightarrow> chol_column l rs ! i = hd (rs ! i) / l"
  by (simp add: chol_column_def)

text \<open>The block view of a square matrix of size \<open>Suc n\<close>.\<close>

lemma is_mat_Cons:
  "is_mat (Suc n) k (r # rs) \<longleftrightarrow> length r = k \<and> is_mat n k rs"
  by (auto simp: is_mat_def)

lemma hd_tl_split: "length r = Suc n \<Longrightarrow> r = hd r # tl r"
  by (cases r) simp_all

lemma is_mat_chol_update:
  assumes "is_mat n (Suc n) rs"
  shows "is_mat n n (chol_update (chol_column l rs) rs)"
  using assms unfolding chol_update_eq by (auto simp: is_mat_def)

lemma chol_update_nth:
  assumes rs: "is_mat n (Suc n) rs" and i: "i < n" and j: "j < n"
  shows "chol_update (chol_column l rs) rs ! i ! j
           = rs ! i ! Suc j - (hd (rs ! i) / l) * (hd (rs ! j) / l)"
proof -
  have li: "length (rs ! i) = Suc n" using is_mat_nth[OF rs i] .
  have "chol_update (chol_column l rs) rs ! i
          = vsub (tl (rs ! i)) (smul (hd (rs ! i) / l) (chol_column l rs))"
    unfolding chol_update_eq using i rs by (simp add: is_mat_def)
  then show ?thesis
    using i j li rs by (simp add: nth_vsub nth_smul nth_chol_column is_mat_def nth_tl)
qed

lemma symmetric_chol_update:
  assumes M: "is_mat (Suc n) (Suc n) (r # rs)" and s: "symmetric (r # rs)"
  shows "symmetric (chol_update (chol_column l rs) rs)"
proof -
  have rs: "is_mat n (Suc n) rs" using M by (simp add: is_mat_Cons)
  have len: "length (chol_update (chol_column l rs) rs) = n"
    using is_mat_chol_update[OF rs] by (simp add: is_mat_def)
  have sym: "rs ! i ! Suc j = rs ! j ! Suc i" if "i < n" "j < n" for i j
    using s that rs unfolding symmetric_def is_mat_def
    by (metis Suc_less_eq length_Cons nth_Cons_Suc)
  show ?thesis
    unfolding symmetric_def len
    using chol_update_nth[OF rs] sym by (simp add: mult.commute)
qed

lemma symmetric_tl_hd:
  assumes M: "is_mat (Suc n) (Suc n) (r # rs)" and s: "symmetric (r # rs)"
  shows "tl r = map hd rs"
proof (rule nth_equalityI)
  show "length (tl r) = length (map hd rs)" using M by (simp add: is_mat_def)
next
  fix j assume "j < length (tl r)"
  then have j: "j < n" using M by (simp add: is_mat_def)
  have lr: "length (rs ! j) = Suc n" using M j by (simp add: is_mat_def)
  have "(r # rs) ! 0 ! Suc j = (r # rs) ! Suc j ! 0"
    using s j M unfolding symmetric_def is_mat_def by (metis Suc_less_eq length_Cons zero_less_Suc)
  then have "r ! Suc j = rs ! j ! 0" by simp
  moreover have "tl r ! j = r ! Suc j" using M j by (simp add: nth_tl is_mat_def)
  moreover have "hd (rs ! j) = rs ! j ! 0" using lr by (cases "rs ! j") simp_all
  then have "map hd rs ! j = rs ! j ! 0" using M j by (simp add: is_mat_def)
  ultimately show "tl r ! j = map hd rs ! j" by simp
qed

lemma qf_Cons:
  assumes M: "is_mat (Suc n) (Suc n) (r # rs)"
  shows "qf (r # rs) (x0 # x')
    = x0 * (hd r * x0 + dot (tl r) x') + x0 * dot x' (map hd rs)
      + dot x' (map (\<lambda>row. dot (tl row) x') rs)"
proof -
  have r: "r = hd r # tl r" using M by (intro hd_tl_split[of _ n]) (simp add: is_mat_def)
  have mp: "map (\<lambda>row. dot row (x0 # x')) rs = map (\<lambda>row. hd row * x0 + dot (tl row) x') rs"
  proof (rule map_cong[OF refl])
    fix row assume "row \<in> set rs"
    then have "row = hd row # tl row" using M by (intro hd_tl_split[of _ n]) (simp add: is_mat_def)
    then show "dot row (x0 # x') = hd row * x0 + dot (tl row) x'" by (metis dot.simps(1))
  qed
  have "dot r (x0 # x') = hd r * x0 + dot (tl r) x'" using r by (metis dot.simps(1))
  then have "qf (r # rs) (x0 # x')
      = x0 * (hd r * x0 + dot (tl r) x')
        + dot x' (map (\<lambda>row. hd row * x0 + dot (tl row) x') rs)"
    unfolding qf_def list.map mp[symmetric] by simp
  also have "dot x' (map (\<lambda>row. hd row * x0 + dot (tl row) x') rs)
      = dot x' (map hd rs) * x0 + dot x' (map (\<lambda>row. dot (tl row) x') rs)"
    using dot_map_mult_right[of x' hd x0 rs] by (simp add: dot_map_add)
  finally show ?thesis by (simp add: algebra_simps)
qed

lemma qf_chol_update:
  assumes rs: "is_mat n (Suc n) rs" and x': "length x' = n" and l: "l \<noteq> 0"
  shows "qf (chol_update (chol_column l rs) rs) x'
    = dot x' (map (\<lambda>row. dot (tl row) x') rs) - (dot x' (map hd rs))\<^sup>2 / l\<^sup>2"
proof -
  define v where "v = chol_column l rs"
  have "map (\<lambda>r. dot r x') (chol_update v rs)
      = map (\<lambda>row. dot (tl row) x' - hd row / l * dot v x') rs"
    unfolding v_def chol_update_eq map_map comp_def
  proof (rule map_cong[OF refl])
    fix row assume "row \<in> set rs"
    then have "length (tl row) = length (chol_column l rs)" using rs by (simp add: is_mat_def)
    then show "dot (vsub (tl row) (smul (hd row / l) (chol_column l rs))) x'
        = dot (tl row) x' - hd row / l * dot (chol_column l rs) x'"
      by (rule dot_vsub_smul)
  qed
  then have "qf (chol_update v rs) x'
      = dot x' (map (\<lambda>row. dot (tl row) x') rs)
        - dot x' (map (\<lambda>row. hd row / l) rs) * dot v x'"
    using dot_map_mult_right[of x' "\<lambda>row. hd row / l" "dot v x'" rs]
    by (simp add: qf_def dot_map_diff)
  moreover have "dot x' (map (\<lambda>row. hd row / l) rs) = dot x' (map hd rs) / l"
    using dot_map_divide[of x' hd l rs] by simp
  moreover have "dot v x' = dot x' (map hd rs) / l"
    using dot_map_divide[of x' hd l rs] by (simp add: v_def chol_column_def dot_commute[of _ x'])
  ultimately show ?thesis by (simp add: v_def power2_eq_square)
qed

lemma qf_schur:
  assumes M: "is_mat (Suc n) (Suc n) (r # rs)" and s: "symmetric (r # rs)"
    and a: "0 < hd r" and x': "length x' = n"
  shows "qf (r # rs) (x0 # x')
    = hd r * (x0 + dot x' (map hd rs) / hd r)\<^sup>2
      + qf (chol_update (chol_column (sqrt (hd r)) rs) rs) x'"
proof -
  have rs: "is_mat n (Suc n) rs" using M by (simp add: is_mat_Cons)
  have l: "sqrt (hd r) \<noteq> 0" using a by simp
  have l2: "(sqrt (hd r))\<^sup>2 = hd r" using a by simp
  have t: "dot (tl r) x' = dot x' (map hd rs)"
    using symmetric_tl_hd[OF M s] by (simp add: dot_commute)
  show ?thesis
    unfolding qf_Cons[OF M] qf_chol_update[OF rs x' l] l2 t
    using a by (simp add: power2_eq_square field_simps)
qed

subsection \<open>The factorisation succeeds exactly on positive-definite matrices\<close>

lemma cholesky_error:
  "length M = k \<Longrightarrow> cholesky M = Inl e \<Longrightarrow> e = CholeskyNotSuccessful"
proof (induction k arbitrary: M)
  case 0 then show ?case by simp
next
  case (Suc k)
  then obtain r rs where M: "M = r # rs" and l: "length rs = k" by (cases M) auto
  have "length (chol_update (chol_column (sqrt (hd r)) rs) rs) = k"
    using l by (simp add: chol_update_def)
  from Suc.IH[OF this] Suc.prems(2) show ?case
    unfolding M cholesky_Cons by (auto split: if_splits sum.splits)
qed

lemma qf_zero [simp]: "qf M (replicate n 0) = 0"
  by (simp add: qf_def)

lemma qf_unit:
  assumes M: "is_mat (Suc n) (Suc n) (r # rs)"
  shows "qf (r # rs) (1 # replicate n 0) = hd r"
  unfolding qf_Cons[OF M] by simp

lemma pos_def_step:
  assumes M: "is_mat (Suc n) (Suc n) (r # rs)" and s: "symmetric (r # rs)" and a: "0 < hd r"
  shows "pos_def (r # rs) \<longleftrightarrow> pos_def (chol_update (chol_column (sqrt (hd r)) rs) rs)"
proof
  define S where "S = chol_update (chol_column (sqrt (hd r)) rs) rs"
  have rs: "is_mat n (Suc n) rs" using M by (simp add: is_mat_Cons)
  have lS: "length S = n" using is_mat_chol_update[OF rs] by (simp add: S_def is_mat_def)
  {
    assume pd: "pos_def (r # rs)"
    show "pos_def (chol_update (chol_column (sqrt (hd r)) rs) rs)"
      unfolding S_def[symmetric] pos_def_def lS
    proof (intro allI impI, elim conjE)
      fix x' :: "real list" assume lx: "length x' = n" and nz: "x' \<noteq> replicate n 0"
      define x0 where "x0 = - dot x' (map hd rs) / hd r"
      have "x0 # x' \<noteq> replicate (length (r # rs)) 0" using nz rs by (simp add: is_mat_def)
      moreover have "length (x0 # x') = length (r # rs)" using lx rs by (simp add: is_mat_def)
      ultimately have "0 < qf (r # rs) (x0 # x')" using pd unfolding pos_def_def by blast
      moreover have "x0 + dot x' (map hd rs) / hd r = 0" using a by (simp add: x0_def)
      ultimately show "0 < qf S x'"
        unfolding qf_schur[OF M s a lx] S_def by simp
    qed
  }
  {
    assume pd: "pos_def (chol_update (chol_column (sqrt (hd r)) rs) rs)"
    show "pos_def (r # rs)"
      unfolding pos_def_def
    proof (intro allI impI, elim conjE)
      fix x :: "real list"
      assume lx: "length x = length (r # rs)" and nz: "x \<noteq> replicate (length (r # rs)) 0"
      have ln: "length (r # rs) = Suc n" using M by (simp add: is_mat_def)
      obtain x0 x' where x: "x = x0 # x'" and lx': "length x' = n"
        using lx ln by (cases x) auto
      have sq: "0 \<le> hd r * (x0 + dot x' (map hd rs) / hd r)\<^sup>2" using a by simp
      show "0 < qf (r # rs) x"
      proof (cases "x' = replicate n 0")
        case True
        with nz x ln have "x0 \<noteq> 0" by auto
        then have "0 < hd r * x0\<^sup>2" using a by simp
        then show ?thesis
          unfolding x qf_schur[OF M s a lx'] using True by simp
      next
        case False
        then have "length x' = length S \<and> x' \<noteq> replicate (length S) 0"
          using lx' lS by simp
        then have "0 < qf S x'" using pd unfolding S_def[symmetric] pos_def_def by blast
        then show ?thesis
          unfolding x qf_schur[OF M s a lx'] S_def[symmetric] using sq by linarith
      qed
    qed
  }
qed

lemma cholesky_success_iff:
  assumes "is_mat k k M" "symmetric M"
  shows "(\<exists>L. cholesky M = Inr L) \<longleftrightarrow> pos_def M"
  using assms
proof (induction k arbitrary: M)
  case 0
  then show ?case by (simp add: is_mat_def pos_def_def)
next
  case (Suc n)
  then obtain r rs where Mc: "M = r # rs" by (cases M) (auto simp: is_mat_def)
  have M: "is_mat (Suc n) (Suc n) (r # rs)" and s: "symmetric (r # rs)"
    using Suc.prems Mc by simp_all
  have rs: "is_mat n (Suc n) rs" using M by (simp add: is_mat_Cons)
  define S where "S = chol_update (chol_column (sqrt (hd r)) rs) rs"
  show ?case
  proof (cases "0 < hd r")
    case False
    have "\<not> pos_def (r # rs)"
    proof
      assume "pos_def (r # rs)"
      moreover have "1 # replicate n 0 \<noteq> replicate (length (r # rs)) (0::real)" by simp
      moreover have "length (1 # replicate n (0::real)) = length (r # rs)"
        using M by (simp add: is_mat_def)
      ultimately have "0 < qf (r # rs) (1 # replicate n 0)" unfolding pos_def_def by blast
      with False show False unfolding qf_unit[OF M] by simp
    qed
    moreover have "cholesky (r # rs) = Inl CholeskyNotSuccessful"
      using False by (simp add: cholesky_Cons)
    ultimately show ?thesis unfolding Mc by simp
  next
    case True
    have "(\<exists>L. cholesky (r # rs) = Inr L) \<longleftrightarrow> (\<exists>L'. cholesky S = Inr L')"
      using True unfolding cholesky_Cons S_def by (auto split: sum.splits)
    also have "\<dots> \<longleftrightarrow> pos_def S"
      unfolding S_def
      by (rule Suc.IH[OF is_mat_chol_update[OF rs] symmetric_chol_update[OF M s]])
    also have "\<dots> \<longleftrightarrow> pos_def (r # rs)"
      unfolding S_def using pos_def_step[OF M s True] by simp
    finally show ?thesis unfolding Mc .
  qed
qed

subsection \<open>The factor\<close>

lemma cholesky_factor:
  assumes "is_mat k k M" "cholesky M = Inr L"
  shows "is_mat k k L \<and> lower_triangular L \<and> (\<forall>i<k. 0 < L ! i ! i) \<and>
         (symmetric M \<longrightarrow> (\<forall>i<k. \<forall>j<k. dot (L ! i) (L ! j) = M ! i ! j))"
  using assms
proof (induction k arbitrary: M L)
  case 0
  then show ?case by (simp add: is_mat_def lower_triangular_def)
next
  case (Suc n)
  from Suc.prems(1) obtain r rs where Mc: "M = r # rs" by (cases M) (auto simp: is_mat_def)
  have M: "is_mat (Suc n) (Suc n) (r # rs)" using Suc.prems Mc by simp
  have rs: "is_mat n (Suc n) rs" using M by (simp add: is_mat_Cons)
  have lrs: "length rs = n" using rs by (simp add: is_mat_def)
  define l where "l = sqrt (hd r)"
  define v where "v = chol_column l rs"
  define S where "S = chol_update v rs"
  have lv: "length v = n" by (simp add: v_def lrs)
  have ch: "cholesky (r # rs) = Inr L" using Suc.prems Mc by simp
  have a: "0 < hd r"
  proof (rule ccontr)
    assume "\<not> 0 < hd r"
    then have "cholesky (r # rs) = Inl CholeskyNotSuccessful" by (simp add: cholesky_Cons)
    with ch show False by simp
  qed
  have l0: "0 < l" using a by (simp add: l_def)
  obtain L' where L': "cholesky S = Inr L'" and L: "L = (l # replicate n 0) # map2 (#) v L'"
  proof (cases "cholesky S")
    case (Inl e)
    with a have "cholesky (r # rs) = Inl e" by (simp add: cholesky_Cons S_def v_def l_def)
    with ch show ?thesis by simp
  next
    case (Inr L')
    with a have "cholesky (r # rs) = Inr ((l # replicate n 0) # map2 (#) v L')"
      by (simp add: cholesky_Cons S_def v_def l_def lrs)
    with ch Inr that show ?thesis by simp
  qed
  have Sm: "is_mat n n S" unfolding S_def v_def by (rule is_mat_chol_update[OF rs])
  note ih = Suc.IH[OF Sm L']
  have L'm: "is_mat n n L'" using ih by (rule conjunct1)
  have L'lt: "lower_triangular L'" using ih by (elim conjE)
  have L'd: "\<forall>i<n. 0 < L' ! i ! i" using ih by (elim conjE)
  have lL': "length L' = n" using L'm by (simp add: is_mat_def)
  have L0: "L ! 0 = l # replicate n 0" by (simp add: L)
  have LS: "L ! Suc i = v ! i # L' ! i" if "i < n" for i
    using that lv lL' by (simp add: L)
  have Lm: "is_mat (Suc n) (Suc n) L"
  proof (rule is_matI)
    show "length L = Suc n" by (simp add: L lv lL')
  next
    fix i assume "i < Suc n"
    then show "length (L ! i) = Suc n"
      using L0 LS is_mat_nth[OF L'm] by (cases i) simp_all
  qed
  have Llt: "lower_triangular L"
    unfolding lower_triangular_def is_mat_length[OF Lm]
  proof (intro allI impI)
    fix i j assume i: "i < Suc n" and j: "j < Suc n" and ij: "i < j"
    from ij obtain j' where j': "j = Suc j'" by (cases j) auto
    show "L ! i ! j = 0"
    proof (cases i)
      case 0
      then show ?thesis using j j' L0 by simp
    next
      case (Suc i')
      then have "L' ! i' ! j' = 0"
        using L'lt i j ij j' lL' unfolding lower_triangular_def by simp
      then show ?thesis using Suc j' i LS by simp
    qed
  qed
  have Ld: "\<forall>i<Suc n. 0 < L ! i ! i"
  proof (intro allI impI)
    fix i assume i: "i < Suc n"
    show "0 < L ! i ! i"
    proof (cases i)
      case 0 then show ?thesis using L0 l0 by simp
    next
      case (Suc i') then show ?thesis using i L'd LS by simp
    qed
  qed
  have prod: "\<forall>i<Suc n. \<forall>j<Suc n. dot (L ! i) (L ! j) = M ! i ! j" if s: "symmetric M"
  proof -
    have s': "symmetric (r # rs)" using s Mc by simp
    have Ss: "symmetric S" unfolding S_def v_def l_def by (rule symmetric_chol_update[OF M s'])
    have ihp: "\<forall>i<n. \<forall>j<n. dot (L' ! i) (L' ! j) = S ! i ! j" using ih Ss by blast
    have r: "r = hd r # tl r" using M by (intro hd_tl_split[of _ n]) (simp add: is_mat_def)
    have tlr: "tl r = map hd rs" by (rule symmetric_tl_hd[OF M s'])
    have rsj: "rs ! j = hd (rs ! j) # tl (rs ! j)" if "j < n" for j
      using is_mat_nth[OF rs that] by (rule hd_tl_split)
    have vj: "v ! j = hd (rs ! j) / l" if "j < n" for j
      using that lrs by (simp add: v_def nth_chol_column)
    have e00: "dot (L ! 0) (L ! 0) = M ! 0 ! 0"
    proof -
      have "dot (L ! 0) (L ! 0) = l * l" unfolding L0 by simp
      also have "\<dots> = hd r" using a by (simp add: l_def)
      also have "\<dots> = M ! 0 ! 0" unfolding Mc by (subst (2) r) simp
      finally show ?thesis .
    qed
    have e0S: "dot (L ! 0) (L ! Suc j) = hd (rs ! j)" if j: "j < n" for j
    proof -
      have "dot (L ! 0) (L ! Suc j) = l * v ! j" unfolding L0 LS[OF j] by simp
      then show ?thesis using vj[OF j] l0 by simp
    qed
    have m0S: "M ! 0 ! Suc j = hd (rs ! j)" if j: "j < n" for j
    proof -
      have "M ! 0 ! Suc j = tl r ! j" unfolding Mc by (subst r) simp
      then show ?thesis unfolding tlr using j lrs by simp
    qed
    have mS0: "M ! Suc j ! 0 = hd (rs ! j)" if j: "j < n" for j
      unfolding Mc by (simp, subst rsj[OF j]) simp
    have eSS: "dot (L ! Suc i) (L ! Suc j) = M ! Suc i ! Suc j" if i: "i < n" and j: "j < n" for i j
    proof -
      have "dot (L ! Suc i) (L ! Suc j) = v ! i * v ! j + dot (L' ! i) (L' ! j)"
        unfolding LS[OF i] LS[OF j] by simp
      also have "dot (L' ! i) (L' ! j) = S ! i ! j" using ihp i j by simp
      also have "S ! i ! j = rs ! i ! Suc j - (hd (rs ! i) / l) * (hd (rs ! j) / l)"
        unfolding S_def v_def by (rule chol_update_nth[OF rs i j])
      finally show ?thesis unfolding Mc using vj[OF i] vj[OF j] by simp
    qed
    show ?thesis
    proof (intro allI impI)
      fix i j assume i: "i < Suc n" and j: "j < Suc n"
      show "dot (L ! i) (L ! j) = M ! i ! j"
      proof (cases i)
        case i0: 0
        show ?thesis
        proof (cases j)
          case 0 then show ?thesis using i0 e00 by simp
        next
          case (Suc j') then show ?thesis using i0 j e0S[of j'] m0S[of j'] by simp
        qed
      next
        case iS: (Suc i')
        show ?thesis
        proof (cases j)
          case 0
          then show ?thesis
            using iS i e0S[of i'] mS0[of i'] by (simp add: dot_commute[of "L ! Suc i'"])
        next
          case (Suc j') then show ?thesis using iS i j eSS[of i' j'] by simp
        qed
      qed
    qed
  qed
  show ?case using Lm Llt Ld prod by blast
qed

subsection \<open>The normal matrix\<close>

lemma gram_is_mat:
  assumes A: "is_mat n k A" and n: "0 < n"
  shows "is_mat k k (matmul (transpose_m A) A)"
  using is_mat_matmul2[OF is_mat_transpose[OF A n] A n] .

lemma gram_entry:
  assumes A: "is_mat n k A" and n: "0 < n" and i: "i < k" and j: "j < k"
  shows "matmul (transpose_m A) A ! i ! j = (\<Sum>t<n. A ! t ! i * A ! t ! j)"
proof -
  have "matmul (transpose_m A) A ! i ! j = (\<Sum>t<n. transpose_m A ! i ! t * A ! t ! j)"
    using matmul_entry[OF is_mat_transpose[OF A n] A n i j] .
  also have "\<dots> = (\<Sum>t<n. A ! t ! i * A ! t ! j)"
    using transpose_m_nth[OF A n i] is_mat_length[OF A] by (simp add: col_nth)
  finally show ?thesis .
qed

lemma gram_symmetric:
  assumes A: "is_mat n k A" and n: "0 < n"
  shows "symmetric (matmul (transpose_m A) A)"
  unfolding symmetric_def is_mat_length[OF gram_is_mat[OF A n]]
  using gram_entry[OF A n] by (simp add: mult.commute)

lemma qf_sum:
  assumes M: "is_mat k k M" and x: "length x = k"
  shows "qf M x = (\<Sum>i<k. \<Sum>j<k. x ! i * (M ! i ! j * x ! j))"
proof -
  have "qf M x = (\<Sum>i<k. x ! i * dot (M ! i) x)"
    unfolding qf_def using x is_mat_length[OF M] by (subst dot_sum) simp_all
  also have "\<dots> = (\<Sum>i<k. x ! i * (\<Sum>j<k. M ! i ! j * x ! j))"
  proof (rule sum.cong[OF refl])
    fix i assume "i \<in> {..<k}"
    then have "length (M ! i) = length x" using is_mat_nth[OF M, of i] x by simp
    from dot_sum[OF this] show "x ! i * dot (M ! i) x = x ! i * (\<Sum>j<k. M ! i ! j * x ! j)"
      using x \<open>length (M ! i) = length x\<close> by simp
  qed
  finally show ?thesis by (simp add: sum_distrib_left)
qed

lemma qf_gram:
  assumes A: "is_mat n k A" and n: "0 < n" and x: "length x = k"
  shows "qf (matmul (transpose_m A) A) x = (\<Sum>t<n. (dot (A ! t) x)\<^sup>2)"
proof -
  have "qf (matmul (transpose_m A) A) x
      = (\<Sum>i<k. \<Sum>j<k. x ! i * ((\<Sum>t<n. A ! t ! i * A ! t ! j) * x ! j))"
    unfolding qf_sum[OF gram_is_mat[OF A n] x] using gram_entry[OF A n] by simp
  also have "\<dots> = (\<Sum>i<k. \<Sum>j<k. \<Sum>t<n. (A ! t ! i * x ! i) * (A ! t ! j * x ! j))"
    by (simp add: sum_distrib_left sum_distrib_right mult_ac)
  also have "\<dots> = (\<Sum>i<k. \<Sum>t<n. \<Sum>j<k. (A ! t ! i * x ! i) * (A ! t ! j * x ! j))"
    by (rule sum.cong[OF refl]) (rule sum.swap)
  also have "\<dots> = (\<Sum>t<n. \<Sum>i<k. \<Sum>j<k. (A ! t ! i * x ! i) * (A ! t ! j * x ! j))"
    by (rule sum.swap)
  also have "\<dots> = (\<Sum>t<n. (\<Sum>i<k. A ! t ! i * x ! i) * (\<Sum>j<k. A ! t ! j * x ! j))"
    by (simp add: sum_product)
  also have "\<dots> = (\<Sum>t<n. (dot (A ! t) x)\<^sup>2)"
  proof (rule sum.cong[OF refl])
    fix t assume "t \<in> {..<n}"
    then have l: "length (A ! t) = length x" using is_mat_nth[OF A, of t] x by simp
    have "dot (A ! t) x = (\<Sum>i<k. A ! t ! i * x ! i)" using dot_sum[OF l] l x by simp
    then show "(\<Sum>i<k. A ! t ! i * x ! i) * (\<Sum>j<k. A ! t ! j * x ! j) = (dot (A ! t) x)\<^sup>2"
      by (simp add: power2_eq_square)
  qed
  finally show ?thesis .
qed

lemma gram_pos_def_iff:
  assumes A: "is_mat n k A" and n: "0 < n"
  shows "pos_def (matmul (transpose_m A) A) \<longleftrightarrow> trivial_kernel k A"
proof -
  have lM: "length (matmul (transpose_m A) A) = k" using gram_is_mat[OF A n] by (simp add: is_mat_def)
  have key: "0 < qf (matmul (transpose_m A) A) x \<longleftrightarrow> \<not> (\<forall>r\<in>set A. dot r x = 0)"
    if x: "length x = k" for x
  proof -
    have "qf (matmul (transpose_m A) A) x = 0 \<longleftrightarrow> (\<forall>t<n. dot (A ! t) x = 0)"
      unfolding qf_gram[OF A n x] by (subst sum_nonneg_eq_0_iff) auto
    moreover have "0 \<le> qf (matmul (transpose_m A) A) x"
      unfolding qf_gram[OF A n x] by (rule sum_nonneg) simp
    moreover have "(\<forall>t<n. dot (A ! t) x = 0) \<longleftrightarrow> (\<forall>r\<in>set A. dot r x = 0)"
      using is_mat_length[OF A] by (metis in_set_conv_nth)
    ultimately show ?thesis by (auto simp: less_le)
  qed
  show ?thesis
    unfolding pos_def_def trivial_kernel_def lM using key by blast
qed

subsection \<open>Triangular matrices\<close>

lemma dot_hd_tl:
  "length r = Suc n \<Longrightarrow> dot r (x0 # x') = hd r * x0 + dot (tl r) x'"
  by (cases r) simp_all

lemma hd_nth0: "length r = Suc n \<Longrightarrow> hd r = r ! 0"
  by (cases r) simp_all

lemma map_tl_nth:
  assumes rs: "is_mat n (Suc n) rs" and i: "i < n" and j: "j < n"
  shows "map tl rs ! i ! j = rs ! i ! Suc j"
  using assms by (simp add: is_mat_def nth_tl)

lemma is_mat_map_tl: "is_mat n (Suc k) rs \<Longrightarrow> is_mat n k (map tl rs)"
  by (auto simp: is_mat_def)

lemma lower_blocks:
  assumes M: "is_mat (Suc n) (Suc n) (r # rs)" and lt: "lower_triangular (r # rs)"
  shows "tl r = replicate n 0" "lower_triangular (map tl rs)"
proof -
  have rs: "is_mat n (Suc n) rs" using M by (simp add: is_mat_Cons)
  have lr: "length r = Suc n" using M by (simp add: is_mat_Cons)
  have z: "(r # rs) ! i ! j = 0" if "i < Suc n" "j < Suc n" "i < j" for i j
    using lt that M unfolding lower_triangular_def is_mat_def by simp
  show "tl r = replicate n 0"
  proof (rule nth_equalityI)
    show "length (tl r) = length (replicate n (0::real))" using lr by simp
  next
    fix j assume "j < length (tl r)"
    then have j: "j < n" using lr by simp
    then have "tl r ! j = r ! Suc j" using lr by (simp add: nth_tl)
    also have "\<dots> = 0" using z[of 0 "Suc j"] j by simp
    finally show "tl r ! j = replicate n 0 ! j" using j by simp
  qed
  show "lower_triangular (map tl rs)"
    unfolding lower_triangular_def
  proof (intro allI impI)
    fix i j assume i: "i < length (map tl rs)" and j: "j < length (map tl rs)" and ij: "i < j"
    have i': "i < n" and j': "j < n" using i j rs by (simp_all add: is_mat_def)
    have "map tl rs ! i ! j = rs ! i ! Suc j" using map_tl_nth[OF rs i' j'] .
    also have "\<dots> = 0" using z[of "Suc i" "Suc j"] i' j' ij by simp
    finally show "map tl rs ! i ! j = 0" .
  qed
qed

lemma upper_blocks:
  assumes M: "is_mat (Suc n) (Suc n) (r # rs)" and ut: "upper_triangular (r # rs)"
  shows "\<forall>row\<in>set rs. hd row = 0" "upper_triangular (map tl rs)"
proof -
  have rs: "is_mat n (Suc n) rs" using M by (simp add: is_mat_Cons)
  have z: "(r # rs) ! i ! j = 0" if "i < Suc n" "j < Suc n" "j < i" for i j
    using ut that M unfolding upper_triangular_def is_mat_def by simp
  show "\<forall>row\<in>set rs. hd row = 0"
  proof
    fix row assume "row \<in> set rs"
    then obtain i where i: "i < n" and row: "row = rs ! i"
      using rs by (metis in_set_conv_nth is_mat_def)
    have "hd row = row ! 0" using is_mat_nth[OF rs i] row by (simp add: hd_nth0)
    also have "\<dots> = 0" using z[of "Suc i" 0] i row by simp
    finally show "hd row = 0" .
  qed
  show "upper_triangular (map tl rs)"
    unfolding upper_triangular_def
  proof (intro allI impI)
    fix i j assume i: "i < length (map tl rs)" and j: "j < length (map tl rs)" and ij: "j < i"
    have i': "i < n" and j': "j < n" using i j rs by (simp_all add: is_mat_def)
    have "map tl rs ! i ! j = rs ! i ! Suc j" using map_tl_nth[OF rs i' j'] .
    also have "\<dots> = 0" using z[of "Suc i" "Suc j"] i' j' ij by simp
    finally show "map tl rs ! i ! j = 0" .
  qed
qed

lemma diag_blocks:
  assumes M: "is_mat (Suc n) (Suc n) (r # rs)"
  shows "(r # rs) ! 0 ! 0 = hd r" "\<And>i. i < n \<Longrightarrow> (r # rs) ! Suc i ! Suc i = map tl rs ! i ! i"
proof -
  have rs: "is_mat n (Suc n) rs" using M by (simp add: is_mat_Cons)
  show "(r # rs) ! 0 ! 0 = hd r" using M by (simp add: is_mat_Cons hd_nth0)
  show "(r # rs) ! Suc i ! Suc i = map tl rs ! i ! i" if "i < n" for i
    using map_tl_nth[OF rs that that] by simp
qed

lemma lower_tri_kernel:
  assumes "is_mat k k L" "lower_triangular L" "\<forall>i<k. L ! i ! i \<noteq> 0"
  shows "trivial_kernel k L"
  using assms
proof (induction k arbitrary: L)
  case 0 then show ?case by (simp add: trivial_kernel_def)
next
  case (Suc n)
  from Suc.prems(1) obtain r rs where L: "L = r # rs" by (cases L) (auto simp: is_mat_def)
  have M: "is_mat (Suc n) (Suc n) (r # rs)" and lt: "lower_triangular (r # rs)"
    using Suc.prems L by simp_all
  have rs: "is_mat n (Suc n) rs" and lr: "length r = Suc n" using M by (simp_all add: is_mat_Cons)
  have d0: "hd r \<noteq> 0" using Suc.prems(3) diag_blocks(1)[OF M] L by (metis zero_less_Suc)
  have d': "\<forall>i<n. map tl rs ! i ! i \<noteq> 0"
    using Suc.prems(3) diag_blocks(2)[OF M] L by (metis Suc_less_eq)
  have tk: "trivial_kernel n (map tl rs)"
    using Suc.IH[OF is_mat_map_tl[OF rs] lower_blocks(2)[OF M lt] d'] .
  show ?case
    unfolding trivial_kernel_def L
  proof (intro allI impI, elim conjE)
    fix x :: "real list"
    assume lx: "length x = Suc n" and z: "\<forall>row\<in>set (r # rs). dot row x = 0"
    obtain x0 x' where x: "x = x0 # x'" and lx': "length x' = n" using lx by (cases x) auto
    have "hd r * x0 + dot (tl r) x' = 0" using z dot_hd_tl[OF lr, of x0 x'] x by simp
    then have x0: "x0 = 0" using d0 unfolding lower_blocks(1)[OF M lt] by simp
    have "\<forall>row\<in>set (map tl rs). dot row x' = 0"
    proof
      fix t assume "t \<in> set (map tl rs)"
      then obtain row where row: "row \<in> set rs" and t: "t = tl row" by auto
      have "length row = Suc n" using rs row by (simp add: is_mat_def)
      from dot_hd_tl[OF this, of x0 x'] z row x x0 show "dot t x' = 0" by (simp add: t)
    qed
    with tk lx' have "x' = replicate n 0" unfolding trivial_kernel_def by blast
    with x x0 show "x = replicate (Suc n) 0" by simp
  qed
qed

lemma upper_tri_kernel:
  assumes "is_mat k k U" "upper_triangular U" "\<forall>i<k. U ! i ! i \<noteq> 0"
  shows "trivial_kernel k U"
  using assms
proof (induction k arbitrary: U)
  case 0 then show ?case by (simp add: trivial_kernel_def)
next
  case (Suc n)
  from Suc.prems(1) obtain r rs where U: "U = r # rs" by (cases U) (auto simp: is_mat_def)
  have M: "is_mat (Suc n) (Suc n) (r # rs)" and ut: "upper_triangular (r # rs)"
    using Suc.prems U by simp_all
  have rs: "is_mat n (Suc n) rs" and lr: "length r = Suc n" using M by (simp_all add: is_mat_Cons)
  have d0: "hd r \<noteq> 0" using Suc.prems(3) diag_blocks(1)[OF M] U by (metis zero_less_Suc)
  have d': "\<forall>i<n. map tl rs ! i ! i \<noteq> 0"
    using Suc.prems(3) diag_blocks(2)[OF M] U by (metis Suc_less_eq)
  have tk: "trivial_kernel n (map tl rs)"
    using Suc.IH[OF is_mat_map_tl[OF rs] upper_blocks(2)[OF M ut] d'] .
  show ?case
    unfolding trivial_kernel_def U
  proof (intro allI impI, elim conjE)
    fix x :: "real list"
    assume lx: "length x = Suc n" and z: "\<forall>row\<in>set (r # rs). dot row x = 0"
    obtain x0 x' where x: "x = x0 # x'" and lx': "length x' = n" using lx by (cases x) auto
    have "\<forall>row\<in>set (map tl rs). dot row x' = 0"
    proof
      fix t assume "t \<in> set (map tl rs)"
      then obtain row where row: "row \<in> set rs" and t: "t = tl row" by auto
      have "length row = Suc n" using rs row by (simp add: is_mat_def)
      from dot_hd_tl[OF this, of x0 x'] z row x upper_blocks(1)[OF M ut]
      show "dot t x' = 0" by (simp add: t)
    qed
    with tk lx' have x': "x' = replicate n 0" unfolding trivial_kernel_def by blast
    have "hd r * x0 + dot (tl r) x' = 0" using z dot_hd_tl[OF lr, of x0 x'] x by simp
    then have "x0 = 0" using d0 x' by simp
    with x x' show "x = replicate (Suc n) 0" by simp
  qed
qed

subsection \<open>The factor and its transpose\<close>

lemma cholesky_matmul:
  assumes M: "is_mat k k M" and s: "symmetric M" and c: "cholesky M = Inr L"
  shows "matmul L (transpose_m L) = M"
proof (cases "k = 0")
  case True
  then have "M = []" using M by (simp add: is_mat_def)
  with c show ?thesis by (simp add: matmul_def)
next
  case False
  then have k: "0 < k" by simp
  from cholesky_factor[OF M c] s have L: "is_mat k k L"
    and p: "\<forall>i<k. \<forall>j<k. dot (L ! i) (L ! j) = M ! i ! j" by blast+
  show ?thesis
  proof (rule matmul_eqI[OF L is_mat_transpose[OF L k] M k])
    fix i j assume i: "i < k" and j: "j < k"
    show "dot (L ! i) (col j (transpose_m L)) = M ! i ! j"
      unfolding col_transpose[OF L j] using p i j by simp
  qed
qed

lemma transpose_m_entry:
  assumes M: "is_mat n k M" and i: "i < n" and j: "j < k"
  shows "transpose_m M ! j ! i = M ! i ! j"
proof -
  have n: "0 < n" using i by simp
  show ?thesis unfolding transpose_m_nth[OF M n j] using i M by (simp add: col_nth is_mat_def)
qed

lemma transpose_lower:
  assumes L: "is_mat k k L" and lt: "lower_triangular L"
  shows "upper_triangular (transpose_m L)"
proof (cases "k = 0")
  case True
  then show ?thesis using L by (simp add: is_mat_def transpose_m_def ncols_def upper_triangular_def)
next
  case False
  then have k: "0 < k" by simp
  have lT: "length (transpose_m L) = k" using is_mat_transpose[OF L k] by (simp add: is_mat_def)
  show ?thesis
    unfolding upper_triangular_def lT
  proof (intro allI impI)
    fix i j assume i: "i < k" and j: "j < k" and ji: "j < i"
    have "transpose_m L ! i ! j = L ! j ! i" using transpose_m_entry[OF L j i] .
    also have "\<dots> = 0" using lt i j ji L unfolding lower_triangular_def is_mat_def by simp
    finally show "transpose_m L ! i ! j = 0" .
  qed
qed

lemma transpose_diag:
  assumes L: "is_mat k k L" and i: "i < k"
  shows "transpose_m L ! i ! i = L ! i ! i"
  using transpose_m_entry[OF L i i] .

lemma is_mat_transpose_sq:
  assumes L: "is_mat k k L"
  shows "is_mat k k (transpose_m L)"
proof (cases "k = 0")
  case True
  then show ?thesis using L by (simp add: is_mat_def transpose_m_def ncols_def)
next
  case False
  then show ?thesis using is_mat_transpose[OF L] by simp
qed

lemma pos_def_trivial_kernel:
  assumes M: "is_mat k k M" and pd: "pos_def M"
  shows "trivial_kernel k M"
  unfolding trivial_kernel_def
proof (intro allI impI, elim conjE)
  fix x :: "real list" assume lx: "length x = k" and z: "\<forall>r\<in>set M. dot r x = 0"
  have "map (\<lambda>r. dot r x) M = replicate (length M) 0"
    using z by (simp add: map_replicate_const[symmetric] cong: map_cong)
  then have "qf M x = 0" by (simp add: qf_def)
  with pd lx M show "x = replicate k 0"
    unfolding pos_def_def is_mat_def by (metis less_irrefl)
qed

subsection \<open>The pipeline\<close>

lemma graph_shapes_ok:
  "graph_shapes (n, k) (m, c) = (if n = m then Inr (k, c) else Inl ValueError)"
  by (simp add: graph_shapes_def)

lemma solution_eval_run:
  assumes "rectangular A" "rectangular y" "length A = length y"
  shows "solution_eval A y = run_sol2 A y"
  using assms by (simp add: solution_eval_def tf_constant_def shape_of_def graph_shapes_ok)

lemma solution_eval_ValueError:
  assumes "\<not> rectangular A \<or> \<not> rectangular y \<or> length A \<noteq> length y"
  shows "solution_eval A y = Inl ValueError"
  using assms by (auto simp: solution_eval_def tf_constant_def shape_of_def graph_shapes_ok)

lemma run_sol2_eq:
  "run_sol2 A y =
     (case cholesky (matmul (transpose_m A) A) of Inl e \<Rightarrow> Inl e | Inr L \<Rightarrow>
       (case matrix_solve L (matmul (transpose_m A) y) of Inl e \<Rightarrow> Inl e | Inr sol1 \<Rightarrow>
          matrix_solve (transpose_m L) sol1))"
  by (simp add: run_sol2_def Let_def split: sum.splits)

lemma gram_cholesky_iff:
  assumes A: "is_mat n k A" and n: "0 < n"
  shows "(\<exists>L. cholesky (matmul (transpose_m A) A) = Inr L) \<longleftrightarrow> trivial_kernel k A"
  using cholesky_success_iff[OF gram_is_mat[OF A n] gram_symmetric[OF A n]]
    gram_pos_def_iff[OF A n] by simp

lemma factor_solves:
  assumes L: "is_mat k k L" and lt: "lower_triangular L" and d: "\<forall>i<k. L ! i ! i \<noteq> 0"
    and B: "is_mat k c B"
  shows "\<exists>w x. matrix_solve L B = Inr w \<and> is_mat k c w \<and> matmul L w = B \<and>
           matrix_solve (transpose_m L) w = Inr x \<and> is_mat k c x \<and>
           matmul (transpose_m L) x = w"
proof -
  have "trivial_kernel k L" using lower_tri_kernel[OF L lt d] .
  with matrix_solve_success_iff[OF L B] obtain w where w: "matrix_solve L B = Inr w" by blast
  from matrix_solve_sound[OF L B w] have wm: "is_mat k c w" and Lw: "matmul L w = B" by simp_all
  have T: "is_mat k k (transpose_m L)" using is_mat_transpose_sq[OF L] .
  have "\<forall>i<k. transpose_m L ! i ! i \<noteq> 0" using d transpose_diag[OF L] by simp
  from upper_tri_kernel[OF T transpose_lower[OF L lt] this]
  have "trivial_kernel k (transpose_m L)" .
  with matrix_solve_success_iff[OF T wm] obtain x where x: "matrix_solve (transpose_m L) w = Inr x"
    by blast
  from matrix_solve_sound[OF T wm x] have "is_mat k c x" "matmul (transpose_m L) x = w" by simp_all
  with w wm Lw x show ?thesis by blast
qed

lemma run_sol2_steps:
  assumes A: "is_mat n k A" and n: "0 < n" and y: "is_mat n c y" and tk: "trivial_kernel k A"
  shows "\<exists>L w x. cholesky (matmul (transpose_m A) A) = Inr L \<and>
           matrix_solve L (matmul (transpose_m A) y) = Inr w \<and>
           matrix_solve (transpose_m L) w = Inr x \<and>
           run_sol2 A y = Inr x \<and> is_mat k c x \<and>
           matmul (matmul (transpose_m A) A) x = matmul (transpose_m A) y"
proof -
  define M where "M = matmul (transpose_m A) A"
  define B where "B = matmul (transpose_m A) y"
  have Mm: "is_mat k k M" unfolding M_def by (rule gram_is_mat[OF A n])
  have Ms: "symmetric M" unfolding M_def by (rule gram_symmetric[OF A n])
  have Bm: "is_mat k c B"
    unfolding B_def using is_mat_matmul2[OF is_mat_transpose[OF A n] y n] .
  from gram_cholesky_iff[OF A n] tk obtain L where c: "cholesky M = Inr L"
    unfolding M_def by blast
  from cholesky_factor[OF Mm c] have L: "is_mat k k L" and lt: "lower_triangular L"
    and d: "\<forall>i<k. 0 < L ! i ! i" by blast+
  have d': "\<forall>i<k. L ! i ! i \<noteq> 0" using d by fastforce
  from factor_solves[OF L lt d' Bm] obtain w x where
    w: "matrix_solve L B = Inr w" and wm: "is_mat k c w" and Lw: "matmul L w = B" and
    x: "matrix_solve (transpose_m L) w = Inr x" and xm: "is_mat k c x" and
    Tx: "matmul (transpose_m L) x = w" by blast
  have run: "run_sol2 A y = Inr x"
    unfolding run_sol2_eq M_def[symmetric] B_def[symmetric] using c w x by simp
  have "matmul M x = B"
  proof (cases "k = 0")
    case True
    then show ?thesis using Mm Bm by (simp add: is_mat_def matmul_def)
  next
    case False
    then have k: "0 < k" by simp
    have "matmul M x = matmul (matmul L (transpose_m L)) x"
      using cholesky_matmul[OF Mm Ms c] by simp
    also have "\<dots> = matmul L (matmul (transpose_m L) x)"
      by (rule matmul_assoc[OF L is_mat_transpose_sq[OF L] xm k k])
    also have "\<dots> = B" using Tx Lw by simp
    finally show ?thesis .
  qed
  with c w x run xm show ?thesis unfolding M_def B_def by blast
qed

lemma run_sol2_full_rank:
  assumes A: "is_mat n k A" and n: "0 < n" and y: "is_mat n c y" and tk: "trivial_kernel k A"
  shows "\<exists>x. run_sol2 A y = Inr x \<and> is_mat k c x \<and>
           matmul (matmul (transpose_m A) A) x = matmul (transpose_m A) y"
  using run_sol2_steps[OF assms] by blast

lemma matmul_cancel:
  assumes M: "is_mat k k M" and tk: "trivial_kernel k M" and k: "0 < k"
    and X: "is_mat k c X" and Y: "is_mat k c Y" and eq: "matmul M X = matmul M Y"
  shows "X = Y"
proof (rule trivial_kernel_unique[OF tk X Y])
  fix r j assume r: "r \<in> set M" and j: "j < c"
  then obtain i where i: "i < k" and ri: "r = M ! i"
    using M by (metis in_set_conv_nth is_mat_def)
  have "dot (M ! i) (col j X) = matmul M X ! i ! j" using matmul_eqD[OF M X k i j] by simp
  also have "\<dots> = matmul M Y ! i ! j" using eq by simp
  also have "\<dots> = dot (M ! i) (col j Y)" using matmul_eqD[OF M Y k i j] by simp
  finally show "dot r (col j X) = dot r (col j Y)" by (simp add: ri)
qed

lemma run_sol2_exact:
  assumes A: "is_mat n k A" and n: "0 < n" and k: "0 < k" and tk: "trivial_kernel k A"
    and X: "is_mat k c X"
  shows "run_sol2 A (matmul A X) = Inr X"
proof -
  have y: "is_mat n c (matmul A X)" using is_mat_matmul2[OF A X k] .
  from run_sol2_full_rank[OF A n y tk] obtain x where
    run: "run_sol2 A (matmul A X) = Inr x" and x: "is_mat k c x" and
    eq: "matmul (matmul (transpose_m A) A) x = matmul (transpose_m A) (matmul A X)" by blast
  have Mm: "is_mat k k (matmul (transpose_m A) A)" by (rule gram_is_mat[OF A n])
  have "pos_def (matmul (transpose_m A) A)" using gram_pos_def_iff[OF A n] tk by simp
  then have tkM: "trivial_kernel k (matmul (transpose_m A) A)"
    by (rule pos_def_trivial_kernel[OF Mm])
  have "matmul (matmul (transpose_m A) A) X = matmul (transpose_m A) (matmul A X)"
    by (rule matmul_assoc[OF is_mat_transpose[OF A n] A X n k])
  with eq have "matmul (matmul (transpose_m A) A) x = matmul (matmul (transpose_m A) A) X"
    by simp
  from matmul_cancel[OF Mm tkM k x X this] run show ?thesis by simp
qed

lemma normal_residual:
  assumes A: "is_mat n k A" and n: "0 < n" and k: "0 < k" and y: "is_mat n c y"
    and x: "is_mat k c x"
    and eq: "matmul (matmul (transpose_m A) A) x = matmul (transpose_m A) y"
  shows "matmul (transpose_m A) (msub (matmul A x) y) = replicate k (replicate c 0)"
proof -
  have T: "is_mat k n (transpose_m A)" using is_mat_transpose[OF A n] .
  have Ax: "is_mat n c (matmul A x)" using is_mat_matmul2[OF A x k] .
  have "matmul (transpose_m A) (msub (matmul A x) y)
      = msub (matmul (transpose_m A) (matmul A x)) (matmul (transpose_m A) y)"
    by (rule matmul_msub[OF T Ax y n])
  also have "matmul (transpose_m A) (matmul A x) = matmul (matmul (transpose_m A) A) x"
    by (rule matmul_assoc[OF T A x n k, symmetric])
  also have "msub (matmul (matmul (transpose_m A) A) x) (matmul (transpose_m A) y)
      = replicate k (replicate c 0)"
    unfolding eq using msub_self[OF is_mat_matmul2[OF T y n]] .
  finally show ?thesis .
qed

subsection \<open>Substitution\<close>

lemma dot_append:
  "length u = length z \<Longrightarrow> dot (u @ u') (z @ z') = dot u z + dot u' z'"
  by (induction u z rule: list_induct2) simp_all

lemma forward_rows_solves:
  assumes "length rs = length bs"
    and "\<forall>i<length rs. length (rs ! i) = length z + length rs"
    and "\<forall>i<length rs. \<forall>j. length z + i < j \<and> j < length z + length rs \<longrightarrow> rs ! i ! j = 0"
    and "\<forall>i<length rs. rs ! i ! (length z + i) \<noteq> 0"
  shows "length (forward_rows rs bs z) = length z + length rs \<and>
         take (length z) (forward_rows rs bs z) = z \<and>
         (\<forall>i<length rs. dot (rs ! i) (forward_rows rs bs z) = bs ! i)"
  using assms
proof (induction rs arbitrary: bs z)
  case Nil
  then show ?case by simp
next
  case (Cons r rs)
  from Cons.prems(1) obtain b bs' where bs: "bs = b # bs'" and lbs: "length rs = length bs'"
    by (cases bs) auto
  define p where "p = length z"
  define new where "new = (b - dot (take p r) z) / r ! p"
  define z1 where "z1 = z @ [new]"
  define Z where "Z = forward_rows rs bs' z1"
  have fr: "forward_rows (r # rs) bs z = Z" by (simp add: bs Z_def z1_def new_def p_def)
  have lz1: "length z1 = Suc p" by (simp add: z1_def p_def)
  have lr: "length r = Suc p + length rs" using Cons.prems(2) by (auto simp: p_def)
  have rp: "r ! p \<noteq> 0" using Cons.prems(4) by (auto simp: p_def)
  have rz: "r ! j = 0" if "p < j" "j < Suc p + length rs" for j
    using Cons.prems(3)[rule_format, of 0 j] that by (simp add: p_def)
  have h2: "\<forall>i<length rs. length (rs ! i) = length z1 + length rs"
    using Cons.prems(2) lz1 by (auto simp: p_def)
  have h3: "\<forall>i<length rs. \<forall>j. length z1 + i < j \<and> j < length z1 + length rs \<longrightarrow> rs ! i ! j = 0"
  proof (intro allI impI)
    fix i j assume i: "i < length rs" and j: "length z1 + i < j \<and> j < length z1 + length rs"
    from Cons.prems(3)[rule_format, of "Suc i" j] i j lz1 show "rs ! i ! j = 0"
      by (simp add: p_def)
  qed
  have h4: "\<forall>i<length rs. rs ! i ! (length z1 + i) \<noteq> 0"
  proof (intro allI impI)
    fix i assume i: "i < length rs"
    from Cons.prems(4)[rule_format, of "Suc i"] i lz1 show "rs ! i ! (length z1 + i) \<noteq> 0"
      by (simp add: p_def)
  qed
  note ih = Cons.IH[OF lbs h2 h3 h4, folded Z_def]
  have lZ: "length Z = Suc p + length rs" using ih lz1 by simp
  have tZ: "take (Suc p) Z = z1" using ih lz1 by simp
  have rest: "\<forall>i<length rs. dot (rs ! i) Z = bs' ! i" using ih by (elim conjE)
  have tz: "take p Z = z"
  proof -
    have "take p Z = take p (take (Suc p) Z)" by (simp add: min_def)
    also have "\<dots> = z" unfolding tZ by (simp add: z1_def p_def)
    finally show ?thesis .
  qed
  have dr: "drop (Suc p) r = replicate (length rs) 0"
  proof (rule nth_equalityI)
    show "length (drop (Suc p) r) = length (replicate (length rs) (0::real))" using lr by simp
  next
    fix j assume "j < length (drop (Suc p) r)"
    then have j: "j < length rs" using lr by simp
    then show "drop (Suc p) r ! j = replicate (length rs) 0 ! j"
      using lr rz[of "Suc p + j"] by simp
  qed
  have "dot r Z = dot (take (Suc p) r @ drop (Suc p) r) (take (Suc p) Z @ drop (Suc p) Z)"
    by simp
  also have "\<dots> = dot (take (Suc p) r) (take (Suc p) Z) + dot (drop (Suc p) r) (drop (Suc p) Z)"
    using lr lZ by (intro dot_append) simp
  also have "\<dots> = dot (take (Suc p) r) z1" unfolding dr tZ by simp
  also have "take (Suc p) r = take p r @ [r ! p]"
    using lr by (simp add: take_Suc_conv_app_nth)
  also have "dot (take p r @ [r ! p]) z1 = dot (take p r) z + r ! p * new"
    unfolding z1_def using lr by (subst dot_append) (simp_all add: p_def)
  also have "\<dots> = b" using rp by (simp add: new_def)
  finally have row0: "dot r Z = b" .
  have "\<forall>i<length (r # rs). dot ((r # rs) ! i) Z = bs ! i"
  proof (intro allI impI)
    fix i assume i: "i < length (r # rs)"
    show "dot ((r # rs) ! i) Z = bs ! i"
    proof (cases i)
      case 0 then show ?thesis using row0 bs by simp
    next
      case (Suc i') then show ?thesis using rest i bs by simp
    qed
  qed
  then show ?case unfolding fr using lZ tz by (simp add: p_def)
qed

lemma forwardSolve_solves:
  assumes L: "is_mat k k L" and lt: "lower_triangular L" and d: "\<forall>i<k. L ! i ! i \<noteq> 0"
    and b: "length b = k"
  shows "length (forwardSolve L b) = k \<and> (\<forall>i<k. dot (L ! i) (forwardSolve L b) = b ! i)"
proof -
  have lL: "length L = k" using L by (simp add: is_mat_def)
  have 1: "length L = length b" using lL b by simp
  have 2: "\<forall>i<length L. length (L ! i) = length ([]::real list) + length L"
    using L by (simp add: is_mat_def)
  have 3: "\<forall>i<length L. \<forall>j. length ([]::real list) + i < j \<and> j < length ([]::real list) + length L
        \<longrightarrow> L ! i ! j = 0"
    using lt unfolding lower_triangular_def by simp
  have 4: "\<forall>i<length L. L ! i ! (length ([]::real list) + i) \<noteq> 0" using d lL by simp
  from forward_rows_solves[OF 1 2 3 4] show ?thesis
    unfolding forwardSolve_def lL by simp
qed

lemma backSolve_solves:
  assumes "is_mat k k U" "upper_triangular U" "\<forall>i<k. U ! i ! i \<noteq> 0" "length z = k"
  shows "length (backSolve U z) = k \<and> (\<forall>i<k. dot (U ! i) (backSolve U z) = z ! i)"
  using assms
proof (induction k arbitrary: U z)
  case 0
  then show ?case by (simp add: is_mat_def)
next
  case (Suc n)
  from Suc.prems(1) obtain r rs where U: "U = r # rs" by (cases U) (auto simp: is_mat_def)
  from Suc.prems(4) obtain z0 zs where z: "z = z0 # zs" and lzs: "length zs = n"
    by (cases z) auto
  have M: "is_mat (Suc n) (Suc n) (r # rs)" and ut: "upper_triangular (r # rs)"
    using Suc.prems U by simp_all
  have rs: "is_mat n (Suc n) rs" and lr: "length r = Suc n" using M by (simp_all add: is_mat_Cons)
  have d0: "hd r \<noteq> 0" using Suc.prems(3) diag_blocks(1)[OF M] U by (metis zero_less_Suc)
  have d': "\<forall>i<n. map tl rs ! i ! i \<noteq> 0"
    using Suc.prems(3) diag_blocks(2)[OF M] U by (metis Suc_less_eq)
  define x' where "x' = backSolve (map tl rs) zs"
  define x0 where "x0 = (z0 - dot (tl r) x') / hd r"
  have bs: "backSolve U z = x0 # x'" by (simp add: U z x'_def x0_def Let_def)
  note ih = Suc.IH[OF is_mat_map_tl[OF rs] upper_blocks(2)[OF M ut] d' lzs, folded x'_def]
  have lx': "length x' = n" using ih by (rule conjunct1)
  have sol': "\<forall>i<n. dot (map tl rs ! i) x' = zs ! i" using ih by (elim conjE)
  have row0: "dot r (x0 # x') = z0"
    unfolding dot_hd_tl[OF lr] using d0 by (simp add: x0_def)
  have rowS: "dot (rs ! i) (x0 # x') = zs ! i" if i: "i < n" for i
  proof -
    have li: "length (rs ! i) = Suc n" using is_mat_nth[OF rs i] .
    have "rs ! i \<in> set rs" using i rs by (simp add: is_mat_def)
    then have "hd (rs ! i) = 0" using upper_blocks(1)[OF M ut] by blast
    moreover have "map tl rs ! i = tl (rs ! i)" using i rs by (simp add: is_mat_def)
    then have "dot (tl (rs ! i)) x' = zs ! i" using sol'[rule_format, OF i] by simp
    ultimately show ?thesis unfolding dot_hd_tl[OF li] by simp
  qed
  have "\<forall>i<Suc n. dot (U ! i) (backSolve U z) = z ! i"
  proof (intro allI impI)
    fix i assume "i < Suc n"
    then show "dot (U ! i) (backSolve U z) = z ! i"
      unfolding bs using row0 rowS by (cases i) (simp_all add: U z)
  qed
  then show ?case using bs lx' by simp
qed

lemma is_mat_column: "is_mat (length v) 1 (column v)"
  by (simp add: is_mat_def column_def)

lemma col_column: "col 0 (column v) = v"
  by (simp add: col_def column_def comp_def)

lemma column_nth: "i < length v \<Longrightarrow> column v ! i ! 0 = v ! i"
  by (simp add: column_def)

lemma matmul_column:
  assumes M: "is_mat n k M" and k: "0 < k" and v: "length v = k" and b: "length b = n"
    and e: "\<forall>i<n. dot (M ! i) v = b ! i"
  shows "matmul M (column v) = column b"
proof (rule matmul_eqI[OF M _ _ k])
  show "is_mat k 1 (column v)" using is_mat_column[of v] v by simp
  show "is_mat n 1 (column b)" using is_mat_column[of b] b by simp
  fix i j :: nat assume i: "i < n" and j: "j < 1"
  then show "dot (M ! i) (col j (column v)) = column b ! i ! j"
    using e b by (simp add: col_column column_nth)
qed

lemma solve_column:
  assumes M: "is_mat k k M" and tk: "trivial_kernel k M" and v: "length v = k"
    and b: "length b = k" and e: "\<forall>i<k. dot (M ! i) v = b ! i"
  shows "matrix_solve M (column b) = Inr (column v)"
proof (cases "k = 0")
  case True
  then show ?thesis using M v b by (simp add: is_mat_def column_def matrix_solve_def)
next
  case False
  then have k: "0 < k" by simp
  have B: "is_mat k 1 (column b)" using is_mat_column[of b] b by simp
  have V: "is_mat k 1 (column v)" using is_mat_column[of v] v by simp
  show ?thesis
    by (rule matrix_solve_unique[OF M B tk V matmul_column[OF M k v b e]])
qed

subsection \<open>Singular triangular matrices and the rank of a design matrix\<close>

lemma not_trivial_kernelI:
  assumes "length x = k" "\<forall>r\<in>set M. dot r x = 0" "x \<noteq> replicate k 0"
  shows "\<not> trivial_kernel k M"
  using assms unfolding trivial_kernel_def by blast

lemma not_trivial_kernelD:
  assumes "\<not> trivial_kernel k M"
  shows "\<exists>x. length x = k \<and> (\<forall>r\<in>set M. dot r x = 0) \<and> x \<noteq> replicate k 0"
  using assms unfolding trivial_kernel_def by blast

lemma lower_tri_singular:
  assumes "is_mat k k L" "lower_triangular L" "\<exists>i<k. L ! i ! i = 0"
  shows "\<not> trivial_kernel k L"
  using assms
proof (induction k arbitrary: L)
  case 0 then show ?case by simp
next
  case (Suc n)
  from Suc.prems(1) obtain r rs where L: "L = r # rs" by (cases L) (auto simp: is_mat_def)
  have M: "is_mat (Suc n) (Suc n) (r # rs)" and lt: "lower_triangular (r # rs)"
    using Suc.prems L by simp_all
  have rs: "is_mat n (Suc n) rs" and lr: "length r = Suc n" using M by (simp_all add: is_mat_Cons)
  have L'm: "is_mat n n (map tl rs)" using is_mat_map_tl[OF rs] .
  have L'lt: "lower_triangular (map tl rs)" using lower_blocks(2)[OF M lt] .
  have tlr: "tl r = replicate n 0" using lower_blocks(1)[OF M lt] .
  have row: "dot row (x0 # x') = hd row * x0 + dot (tl row) x'" if "row \<in> set rs" for row x0 x'
    using that rs by (intro dot_hd_tl[of _ n]) (simp add: is_mat_def)
  show ?case
  proof (cases "\<exists>i<n. map tl rs ! i ! i = 0")
    case True
    from not_trivial_kernelD[OF Suc.IH[OF L'm L'lt True]] obtain x' where
      lx': "length x' = n" and z': "\<forall>t\<in>set (map tl rs). dot t x' = 0" and nz: "x' \<noteq> replicate n 0"
      by blast
    show ?thesis
      unfolding L
    proof (rule not_trivial_kernelI[of "0 # x'"])
      show "length (0 # x') = Suc n" using lx' by simp
      show "0 # x' \<noteq> replicate (Suc n) 0" using nz by simp
      show "\<forall>t\<in>set (r # rs). dot t (0 # x') = 0"
      proof
        fix t assume "t \<in> set (r # rs)"
        then consider "t = r" | "t \<in> set rs" by auto
        then show "dot t (0 # x') = 0"
        proof cases
          case 1 then show ?thesis unfolding 1 dot_hd_tl[OF lr] tlr by simp
        next
          case 2 then show ?thesis using row[OF 2] z' by simp
        qed
      qed
    qed
  next
    case False
    then have d': "\<forall>i<n. map tl rs ! i ! i \<noteq> 0" by blast
    have "hd r = 0"
    proof -
      from Suc.prems(3) obtain i where i: "i < Suc n" and z: "L ! i ! i = 0" by blast
      show ?thesis
      proof (cases i)
        case 0 then show ?thesis using z diag_blocks(1)[OF M] L by simp
      next
        case (Suc i')
        then show ?thesis using z i d' diag_blocks(2)[OF M, of i'] L by simp
      qed
    qed
    define b where "b = map (\<lambda>row. - hd row) rs"
    have lb: "length b = n" using rs by (simp add: b_def is_mat_def)
    define x' where "x' = forwardSolve (map tl rs) b"
    from forwardSolve_solves[OF L'm L'lt d' lb] have
      lx': "length x' = n" and sol: "\<forall>i<n. dot (map tl rs ! i) x' = b ! i"
      by (simp_all add: x'_def)
    show ?thesis
      unfolding L
    proof (rule not_trivial_kernelI[of "1 # x'"])
      show "length (1 # x') = Suc n" using lx' by simp
      show "1 # x' \<noteq> replicate (Suc n) 0" by simp
      show "\<forall>t\<in>set (r # rs). dot t (1 # x') = 0"
      proof
        fix t assume "t \<in> set (r # rs)"
        then consider "t = r" | "t \<in> set rs" by auto
        then show "dot t (1 # x') = 0"
        proof cases
          case 1 then show ?thesis unfolding 1 dot_hd_tl[OF lr] tlr using \<open>hd r = 0\<close> by simp
        next
          case 2
          then obtain i where i: "i < n" and t: "t = rs ! i"
            using rs by (metis in_set_conv_nth is_mat_def)
          have "map tl rs ! i = tl t" "b ! i = - hd t" using i rs t by (simp_all add: is_mat_def b_def)
          with sol[rule_format, OF i] have "dot (tl t) x' = - hd t" by simp
          then show ?thesis using row[OF 2] by simp
        qed
      qed
    qed
  qed
qed

lemma upper_tri_singular:
  assumes "is_mat k k U" "upper_triangular U" "\<exists>i<k. U ! i ! i = 0"
  shows "\<not> trivial_kernel k U"
  using assms
proof (induction k arbitrary: U)
  case 0 then show ?case by simp
next
  case (Suc n)
  from Suc.prems(1) obtain r rs where U: "U = r # rs" by (cases U) (auto simp: is_mat_def)
  have M: "is_mat (Suc n) (Suc n) (r # rs)" and ut: "upper_triangular (r # rs)"
    using Suc.prems U by simp_all
  have rs: "is_mat n (Suc n) rs" and lr: "length r = Suc n" using M by (simp_all add: is_mat_Cons)
  have U'm: "is_mat n n (map tl rs)" using is_mat_map_tl[OF rs] .
  have U'ut: "upper_triangular (map tl rs)" using upper_blocks(2)[OF M ut] .
  have hz: "\<forall>row\<in>set rs. hd row = 0" using upper_blocks(1)[OF M ut] .
  have row: "dot row (x0 # x') = dot (tl row) x'" if "row \<in> set rs" for row x0 x'
  proof -
    have "length row = Suc n" using that rs by (simp add: is_mat_def)
    from dot_hd_tl[OF this, of x0 x'] hz that show ?thesis by simp
  qed
  show ?case
  proof (cases "hd r = 0")
    case True
    show ?thesis
      unfolding U
    proof (rule not_trivial_kernelI[of "1 # replicate n 0"])
      show "length (1 # replicate n (0::real)) = Suc n" by simp
      show "1 # replicate n 0 \<noteq> replicate (Suc n) (0::real)" by simp
      show "\<forall>t\<in>set (r # rs). dot t (1 # replicate n 0) = 0"
      proof
        fix t assume "t \<in> set (r # rs)"
        then consider "t = r" | "t \<in> set rs" by auto
        then show "dot t (1 # replicate n 0) = 0"
        proof cases
          case 1 then show ?thesis unfolding 1 dot_hd_tl[OF lr] using True by simp
        next
          case 2 then show ?thesis using row[OF 2] by simp
        qed
      qed
    qed
  next
    case False
    have "\<exists>i<n. map tl rs ! i ! i = 0"
    proof -
      from Suc.prems(3) obtain i where i: "i < Suc n" and z: "U ! i ! i = 0" by blast
      show ?thesis
      proof (cases i)
        case 0 then show ?thesis using z False diag_blocks(1)[OF M] U by simp
      next
        case (Suc i')
        then show ?thesis using z i diag_blocks(2)[OF M, of i'] U by auto
      qed
    qed
    from not_trivial_kernelD[OF Suc.IH[OF U'm U'ut this]] obtain x' where
      lx': "length x' = n" and z': "\<forall>t\<in>set (map tl rs). dot t x' = 0" and nz: "x' \<noteq> replicate n 0"
      by blast
    define x0 where "x0 = - dot (tl r) x' / hd r"
    show ?thesis
      unfolding U
    proof (rule not_trivial_kernelI[of "x0 # x'"])
      show "length (x0 # x') = Suc n" using lx' by simp
      show "x0 # x' \<noteq> replicate (Suc n) 0" using nz by simp
      show "\<forall>t\<in>set (r # rs). dot t (x0 # x') = 0"
      proof
        fix t assume "t \<in> set (r # rs)"
        then consider "t = r" | "t \<in> set rs" by auto
        then show "dot t (x0 # x') = 0"
        proof cases
          case 1 then show ?thesis unfolding 1 dot_hd_tl[OF lr] using False by (simp add: x0_def)
        next
          case 2 then show ?thesis using row[OF 2] z' by simp
        qed
      qed
    qed
  qed
qed

lemma is_mat_design: "is_mat (length xs) 2 (design xs)"
  by (simp add: is_mat_def design_def)

lemma design_trivial_kernel:
  assumes "\<exists>i<length xs. \<exists>j<length xs. xs ! i \<noteq> xs ! j"
  shows "trivial_kernel 2 (design xs)"
  unfolding trivial_kernel_def
proof (intro allI impI, elim conjE)
  fix x :: "real list" assume lx: "length x = 2" and z: "\<forall>r\<in>set (design xs). dot r x = 0"
  from lx obtain a b where x: "x = [a, b]" by (auto simp: length_Suc_conv numeral_2_eq_2)
  from assms obtain i j where i: "i < length xs" and j: "j < length xs" and ne: "xs ! i \<noteq> xs ! j"
    by blast
  have "[xs ! i, 1] \<in> set (design xs)" "[xs ! j, 1] \<in> set (design xs)"
    using i j by (auto simp: design_def)
  with z x have "xs ! i * a + b = 0" "xs ! j * a + b = 0" by fastforce+
  then have "xs ! i * a + b - (xs ! j * a + b) = 0" by simp
  then have "(xs ! i - xs ! j) * a = 0" by (simp add: left_diff_distrib)
  with ne have "a = 0" by simp
  with \<open>xs ! i * a + b = 0\<close> have "b = 0" by simp
  with \<open>a = 0\<close> x show "x = replicate 2 0" by (simp add: numeral_2_eq_2)
qed

lemma dot_unit_diff:
  assumes r: "length r = k" and i: "i < k" and j: "j < k" and ij: "i \<noteq> j"
  shows "dot r ((replicate k 0)[i := 1, j := - 1]) = r ! i - r ! j"
proof -
  define x where "x = (replicate k (0::real))[i := 1, j := - 1]"
  have lx: "length x = k" by (simp add: x_def)
  have xt: "x ! t = (if t = i then 1 else 0) - (if t = j then 1 else 0)" if "t < k" for t
    using that i j ij by (simp add: x_def nth_list_update)
  have "dot r x = (\<Sum>t<k. r ! t * x ! t)" using dot_sum[of r x] r lx by simp
  also have "\<dots> = (\<Sum>t<k. (if t = i then r ! t else 0) - (if t = j then r ! t else 0))"
    by (rule sum.cong[OF refl]) (simp add: xt)
  also have "\<dots> = (\<Sum>t<k. if t = i then r ! t else 0) - (\<Sum>t<k. if t = j then r ! t else 0)"
    by (rule sum_subtractf)
  also have "\<dots> = r ! i - r ! j" using i j by simp
  finally show ?thesis by (simp add: x_def)
qed

lemma identical_columns_kernel:
  assumes A: "is_mat n k A" and i: "i < j" and j: "j < k" and c: "col i A = col j A"
  shows "\<not> trivial_kernel k A"
proof (rule not_trivial_kernelI[of "(replicate k 0)[i := 1, j := - 1]"])
  show "length ((replicate k (0::real))[i := 1, j := - 1]) = k" by simp
  show "(replicate k 0)[i := 1, j := - 1] \<noteq> replicate k (0::real)"
  proof
    assume "(replicate k 0)[i := 1, j := - 1] = replicate k (0::real)"
    then have "(replicate k 0)[i := 1, j := - 1] ! i = replicate k (0::real) ! i" by simp
    then show False using i j by (simp add: nth_list_update)
  qed
  show "\<forall>r\<in>set A. dot r ((replicate k 0)[i := 1, j := - 1]) = 0"
  proof
    fix r assume r: "r \<in> set A"
    then obtain t where t: "t < n" and rt: "r = A ! t"
      using A by (metis in_set_conv_nth is_mat_def)
    have "col i A ! t = col j A ! t" using c by simp
    then have "r ! i = r ! j" using t A rt by (simp add: col_nth is_mat_def)
    moreover have "length r = k" using A r by (simp add: is_mat_def)
    ultimately show "dot r ((replicate k 0)[i := 1, j := - 1]) = 0"
      using dot_unit_diff[of r k i j] i j by simp
  qed
qed

lemma distinct_x_vals: "distinct x_vals"
  unfolding x_vals_def by (simp add: distinct_map inj_on_def)

lemma length_x_vals: "length x_vals = 100"
  by (simp add: x_vals_def)

subsection \<open>Evaluation on small inputs\<close>

lemma solution_eval_empty: "solution_eval [] [] = Inr []"
  by (simp add: solution_eval_def tf_constant_def rectangular_def shape_of_def ncols_def
      graph_shapes_ok run_sol2_eq transpose_m_def matmul_def matrix_solve_def)

lemma eval_upt: "[0..<2] = [0, 1]" "[0..<1] = [0]"
  by (simp_all add: upt_rec)

lemma sqrt_tiny: "sqrt (1 / 100000000000000000000000000) = 1 / 10000000000000"
proof -
  have "sqrt ((1 / 10000000000000)\<^sup>2) = 1 / 10000000000000" by (subst real_sqrt_abs) simp
  then show ?thesis by (simp add: power2_eq_square)
qed

section \<open>The claims of the specification\<close>





text \<open>
  Claim C3. For every symmetric positive-definite matrix \<open>M\<close> the Cholesky step returns a
  factor \<open>L\<close> that is lower-triangular and satisfies \<open>L L\<^sup>T = M\<close>.
\<close>

theorem cholesky_round_trip:
  assumes "is_mat k k M" and "symmetric M" and "pos_def M"
  shows "\<exists>L. cholesky M = Inr L \<and> is_mat k k L \<and> lower_triangular L \<and>
           matmul L (transpose_m L) = M"
proof -
  from cholesky_success_iff[OF assms(1,2)] assms(3) obtain L where c: "cholesky M = Inr L"
    by blast
  from cholesky_factor[OF assms(1) c] have "is_mat k k L" "lower_triangular L" by blast+
  with c cholesky_matmul[OF assms(1,2) c] show ?thesis by blast
qed

theorem cholesky_round_trip_witness:
  "is_mat 2 2 [[4, 2], [2, 5]] \<and> symmetric [[4, 2], [2, 5]] \<and> pos_def [[4, 2], [2, 5]] \<and>
   (\<exists>L. cholesky [[4, 2], [2, 5]] = Inr L \<and> is_mat 2 2 L \<and> lower_triangular L \<and>
        matmul L (transpose_m L) = [[4, 2], [2, 5]])"
proof -
  have m: "is_mat 2 2 [[4, 2], [2, 5]]" by (simp add: is_mat_def)
  have s: "symmetric [[4, 2], [2, 5]]" by (simp add: symmetric_def less_Suc_eq numeral_2_eq_2)
  have "cholesky [[4, 2], [2, 5]] = Inr [[2, 0], [1, 2]]"
    by (simp add: cholesky_Cons chol_column_def chol_update_def)
  with cholesky_success_iff[OF m s] have p: "pos_def [[4, 2], [2, 5]]" by simp
  show ?thesis using m s p cholesky_round_trip[OF m s p] by blast
qed

text \<open>
  Claim C5. When the number of rows of \<open>A\<close> differs from the length of \<open>y\<close>, or the rows of
  \<open>A\<close> do not have one length, the pipeline returns no result: building the graph raises
  \<open>ValueError\<close>, the library's error for operands whose dimensions do not fit.
\<close>

theorem dimension_mismatch_raises:
  assumes "length A \<noteq> length y \<or> \<not> rectangular A"
  shows "solution_eval A y = Inl ValueError"
  using assms by (intro solution_eval_ValueError) blast

theorem dimension_mismatch_raises_witness:
  "length (design x_vals) \<noteq> length (column (replicate 99 0)) \<and>
   solution_eval (design x_vals) (column (replicate 99 0)) = Inl ValueError"
proof -
  have h: "length (design x_vals) \<noteq> length (column (replicate 99 0))"
    by (simp add: design_def x_vals_def column_def)
  show ?thesis using h dimension_mismatch_raises[of "design x_vals" "column (replicate 99 0)"]
    by blast
qed










text \<open>
  Claim C10. For the design matrix that the notebook builds, 100 pairwise distinct \<open>x\<close>
  values in the first column and ones in the second, the normal matrix is symmetric and
  positive definite; whatever the 100 targets are, the Cholesky step and both solves
  return, and the pipeline produces a coefficient vector of two rows and one column.
\<close>

theorem notebook_design_never_fails:
  assumes "distinct xs" and "length xs = 100" and "is_mat 100 1 y"
  shows "symmetric (matmul (transpose_m (design xs)) (design xs)) \<and>
         pos_def (matmul (transpose_m (design xs)) (design xs)) \<and>
         (\<exists>L w x. cholesky (matmul (transpose_m (design xs)) (design xs)) = Inr L \<and>
                  matrix_solve L (matmul (transpose_m (design xs)) y) = Inr w \<and>
                  matrix_solve (transpose_m L) w = Inr x \<and>
                  solution_eval (design xs) y = Inr x \<and> is_mat 2 1 x)"
proof -
  have A: "is_mat 100 2 (design xs)" using is_mat_design[of xs] assms(2) by simp
  have n: "(0::nat) < 100" by simp
  have "xs ! 0 \<noteq> xs ! 1" using assms(1,2) by (simp add: nth_eq_iff_index_eq)
  moreover have "(0::nat) < length xs" "(1::nat) < length xs" using assms(2) by simp_all
  ultimately have "\<exists>i<length xs. \<exists>j<length xs. xs ! i \<noteq> xs ! j" by blast
  then have tk: "trivial_kernel 2 (design xs)" by (rule design_trivial_kernel)
  have se: "solution_eval (design xs) y = run_sol2 (design xs) y"
    using solution_eval_run[OF is_mat_rectangular[OF A] is_mat_rectangular[OF assms(3)]]
      A assms(3) by (simp add: is_mat_def)
  show ?thesis
    using gram_symmetric[OF A n] gram_pos_def_iff[OF A n] tk run_sol2_steps[OF A n assms(3) tk] se
    by auto
qed

theorem notebook_design_never_fails_witness:
  "distinct x_vals \<and> length x_vals = 100 \<and> is_mat 100 1 (column x_vals) \<and>
   symmetric (matmul (transpose_m (design x_vals)) (design x_vals)) \<and>
   pos_def (matmul (transpose_m (design x_vals)) (design x_vals)) \<and>
   (\<exists>L w x. cholesky (matmul (transpose_m (design x_vals)) (design x_vals)) = Inr L \<and>
            matrix_solve L (matmul (transpose_m (design x_vals)) (column x_vals)) = Inr w \<and>
            matrix_solve (transpose_m L) w = Inr x \<and>
            solution_eval (design x_vals) (column x_vals) = Inr x \<and> is_mat 2 1 x)"
proof -
  have y: "is_mat 100 1 (column x_vals)" using is_mat_column[of x_vals] length_x_vals by simp
  show ?thesis
    using distinct_x_vals length_x_vals y
      notebook_design_never_fails[OF distinct_x_vals length_x_vals y] by blast
qed

end
